theory Spec2Isabelle
  imports Complex_Main "HOL-Library.Word"
begin

section \<open>Unit converter\<close>

text \<open>
  The table \<open>conversionRates\<close> of \<open>script.js\<close>: for the categories \<open>length\<close> and
  \<open>weight\<close> every unit is given as the number of units in one base unit (metre, kilogram).
  The decimal literals of the source are written as the fractions they denote; the
  arithmetic of the converter is carried out on rationals (the value handed to
  \<open>toFixed\<close>, before rounding for display).  The entries of the category
  \<open>temperature\<close> are strings in the source and are never used as factors.
\<close>

definition lengthRates :: "(string \<times> rat) list" where
  "lengthRates =
     [(''m'', 1), (''km'', 1 / 1000), (''cm'', 100), (''mm'', 1000),
      (''ft'', 328084 / 100000), (''in'', 393701 / 10000)]"

definition weightRates :: "(string \<times> rat) list" where
  "weightRates =
     [(''kg'', 1), (''g'', 1000), (''mg'', 1000000),
      (''lb'', 220462 / 100000), (''oz'', 3527396 / 100000)]"

definition temperatureUnits :: "string list" where
  "temperatureUnits = [''celsius'', ''fahrenheit'', ''kelvin'']"

definition conversionRates :: "string \<Rightarrow> (string \<times> rat) list" where
  "conversionRates ty =
     (if ty = ''length'' then lengthRates
      else if ty = ''weight'' then weightRates
      else [])"

text \<open>The units offered by \<open>updateConverterOptions\<close> for a category.\<close>

definition unitsOf :: "string \<Rightarrow> string list" where
  "unitsOf ty =
     (if ty = ''temperature'' then temperatureUnits else map fst (conversionRates ty))"

text \<open>
  \<open>convertTemperature(value, from, to)\<close>.  With a unit name that is none of the three,
  the source computes with \<open>undefined\<close> or falls off the end of the function; the model
  returns \<open>None\<close> there.
\<close>

definition toCelsius :: "string \<Rightarrow> rat \<Rightarrow> rat option" where
  "toCelsius from v =
     (if from = ''celsius'' then Some v
      else if from = ''fahrenheit'' then Some ((v - 32) * 5 / 9)
      else if from = ''kelvin'' then Some (v - 27315 / 100)
      else None)"

definition fromCelsius :: "string \<Rightarrow> rat \<Rightarrow> rat option" where
  "fromCelsius to c =
     (if to = ''celsius'' then Some c
      else if to = ''fahrenheit'' then Some (c * 9 / 5 + 32)
      else if to = ''kelvin'' then Some (c + 27315 / 100)
      else None)"

definition convertTemperature :: "rat \<Rightarrow> string \<Rightarrow> string \<Rightarrow> rat option" where
  "convertTemperature v from to =
     (if from = to then Some v
      else case toCelsius from v of
             None \<Rightarrow> None
           | Some c \<Rightarrow> fromCelsius to c)"

text \<open>
  \<open>convert\<close>, from the parsed input value to the number that is formatted: the branch
  on \<open>currentConverterType\<close>, the division by the rate of the source unit and the
  multiplication by the rate of the target unit.  A unit missing from the table makes
  the source compute with \<open>undefined\<close> (the result is not a number): \<open>None\<close>.
\<close>

definition convert :: "string \<Rightarrow> string \<Rightarrow> string \<Rightarrow> rat \<Rightarrow> rat option" where
  "convert ty from to v =
     (if ty = ''temperature'' then convertTemperature v from to
      else case (map_of (conversionRates ty) from, map_of (conversionRates ty) to) of
             (Some rf, Some rt) \<Rightarrow> Some (v / rf * rt)
           | _ \<Rightarrow> None)"

lemma lengthRates_nonzero: "map_of lengthRates u = Some r \<Longrightarrow> r \<noteq> 0"
  by (auto simp: lengthRates_def split: if_splits)

lemma weightRates_nonzero: "map_of weightRates u = Some r \<Longrightarrow> r \<noteq> 0"
  by (auto simp: weightRates_def split: if_splits)

lemma conversionRates_nonzero: "map_of (conversionRates ty) u = Some r \<Longrightarrow> r \<noteq> 0"
  by (auto simp: conversionRates_def dest: lengthRates_nonzero weightRates_nonzero
      split: if_splits)

lemma conversionRates_defined:
  assumes "u \<in> set (map fst (conversionRates ty))"
  shows "\<exists>r. map_of (conversionRates ty) u = Some r"
proof -
  from assms have "u \<in> dom (map_of (conversionRates ty))"
    by (simp add: dom_map_of_conv_image_fst)
  then show ?thesis by blast
qed

lemma toCelsius_inverse:
  assumes "toCelsius u x = Some c"
  shows "fromCelsius u c = Some x"
proof -
  consider "u = ''celsius''" | "u = ''fahrenheit''" | "u = ''kelvin''"
    using assms by (auto simp: toCelsius_def split: if_splits)
  then show ?thesis
  proof cases
    case 1
    with assms show ?thesis by (simp add: toCelsius_def fromCelsius_def)
  next
    case 2
    have "(x - 32) * 5 / 9 * 9 / 5 + 32 = x" by (simp add: field_simps)
    moreover from 2 assms have "c = (x - 32) * 5 / 9"
      by (simp add: toCelsius_def del: eq_divide_eq_numeral1)
    ultimately have "c * 9 / 5 + 32 = x" by blast
    with 2 show ?thesis by (simp add: fromCelsius_def)
  next
    case 3
    with assms have "c = x - 27315 / 100" by (simp add: toCelsius_def)
    then have "c + 27315 / 100 = x" by simp
    with 3 show ?thesis by (simp add: fromCelsius_def)
  qed
qed

lemma fromCelsius_inverse:
  assumes "fromCelsius u c = Some y"
  shows "toCelsius u y = Some c"
proof -
  consider "u = ''celsius''" | "u = ''fahrenheit''" | "u = ''kelvin''"
    using assms by (auto simp: fromCelsius_def split: if_splits)
  then show ?thesis
  proof cases
    case 1
    with assms show ?thesis by (simp add: toCelsius_def fromCelsius_def)
  next
    case 2
    have "(c * 9 / 5 + 32 - 32) * 5 / 9 = c" by simp
    moreover from 2 assms have "y = c * 9 / 5 + 32" by (simp add: fromCelsius_def)
    ultimately have "(y - 32) * 5 / 9 = c" by blast
    with 2 show ?thesis by (simp add: toCelsius_def)
  next
    case 3
    with assms have "y = c + 27315 / 100" by (simp add: fromCelsius_def)
    then have "y - 27315 / 100 = c" by simp
    with 3 show ?thesis by (simp add: toCelsius_def)
  qed
qed

lemma toCelsius_defined: "u \<in> set temperatureUnits \<Longrightarrow> toCelsius u x \<noteq> None"
  by (auto simp: temperatureUnits_def toCelsius_def simp del: not_None_eq)

lemma fromCelsius_defined: "u \<in> set temperatureUnits \<Longrightarrow> fromCelsius u c \<noteq> None"
  by (auto simp: temperatureUnits_def fromCelsius_def simp del: not_None_eq)

lemma fromCelsius_toCelsius:
  assumes "u \<in> set temperatureUnits"
  shows "\<exists>y. fromCelsius u c = Some y \<and> toCelsius u y = Some c"
  using fromCelsius_defined [OF assms, of c] fromCelsius_inverse [of u c] by blast

lemma toCelsius_fromCelsius:
  assumes "u \<in> set temperatureUnits"
  shows "\<exists>c. toCelsius u x = Some c \<and> fromCelsius u c = Some x"
  using toCelsius_defined [OF assms, of x] toCelsius_inverse [of u x] by blast

lemma convertTemperature_roundtrip:
  assumes u: "u \<in> set temperatureUnits" and v: "v \<in> set temperatureUnits"
  shows "\<exists>y. convertTemperature x u v = Some y \<and> convertTemperature y v u = Some x"
proof (cases "u = v")
  case True
  then show ?thesis by (simp add: convertTemperature_def)
next
  case False
  from toCelsius_fromCelsius [OF u] obtain c
    where c: "toCelsius u x = Some c" "fromCelsius u c = Some x" by blast
  from fromCelsius_toCelsius [OF v] obtain y
    where y: "fromCelsius v c = Some y" "toCelsius v y = Some c" by blast
  from False have "v \<noteq> u" by blast
  with False c y show ?thesis by (simp add: convertTemperature_def)
qed

lemma rates_roundtrip:
  assumes "ty \<noteq> ''temperature''"
    and "u \<in> set (map fst (conversionRates ty))"
    and "v \<in> set (map fst (conversionRates ty))"
  shows "\<exists>y. convert ty u v x = Some y \<and> convert ty v u y = Some x"
proof -
  from assms(2) obtain ru where ru: "map_of (conversionRates ty) u = Some ru"
    using conversionRates_defined by blast
  from assms(3) obtain rv where rv: "map_of (conversionRates ty) v = Some rv"
    using conversionRates_defined by blast
  have nz: "ru \<noteq> 0" "rv \<noteq> 0"
    using ru rv conversionRates_nonzero by blast+
  with ru rv assms(1) show ?thesis by (simp add: convert_def)
qed

text \<open>
  Claim C6.  For each of the three categories, for any two units \<open>u\<close> and \<open>v\<close> that the
  converter offers in that category and any rational value \<open>x\<close>, converting \<open>x\<close> from
  \<open>u\<close> to \<open>v\<close> yields a number, and converting that number from \<open>v\<close> back to \<open>u\<close> yields
  \<open>x\<close> again; converting from a unit to itself yields \<open>x\<close>.
\<close>

theorem convert_roundtrip:
  assumes "ty \<in> {''length'', ''weight'', ''temperature''}"
    and "u \<in> set (unitsOf ty)" and "v \<in> set (unitsOf ty)"
  shows "(\<exists>y. convert ty u v x = Some y \<and> convert ty v u y = Some x)
         \<and> convert ty u u x = Some x"
proof (cases "ty = ''temperature''")
  case True
  with assms(2,3) have uv: "u \<in> set temperatureUnits" "v \<in> set temperatureUnits"
    by (simp_all add: unitsOf_def)
  from convertTemperature_roundtrip [OF uv]
  show ?thesis using True by (simp add: convert_def convertTemperature_def)
next
  case False
  with assms(2,3) have uv: "u \<in> set (map fst (conversionRates ty))"
      "v \<in> set (map fst (conversionRates ty))"
    by (simp_all add: unitsOf_def)
  from rates_roundtrip [OF False uv(1) uv(2), of x]
  have a: "\<exists>y. convert ty u v x = Some y \<and> convert ty v u y = Some x" .
  from rates_roundtrip [OF False uv(1) uv(1), of x]
  obtain y where y: "convert ty u u x = Some y" "convert ty u u y = Some x" by blast
  from uv(1) obtain ru where ru: "map_of (conversionRates ty) u = Some ru"
    using conversionRates_defined by blast
  then have "ru \<noteq> 0" using conversionRates_nonzero by blast
  with ru False have "convert ty u u x = Some x" by (simp add: convert_def)
  with a show ?thesis by simp
qed

theorem convert_roundtrip_witness:
  "''length'' \<in> {''length'', ''weight'', ''temperature''}
   \<and> ''ft'' \<in> set (unitsOf ''length'') \<and> ''km'' \<in> set (unitsOf ''length'')
   \<and> (\<exists>y. convert ''length'' ''ft'' ''km'' 5 = Some y \<and> convert ''length'' ''km'' ''ft'' y = Some 5)
   \<and> convert ''length'' ''ft'' ''ft'' 5 = Some 5"
proof -
  have h1: "''length'' \<in> {''length'', ''weight'', ''temperature''}" by simp
  have h2: "''ft'' \<in> set (unitsOf ''length'')"
    by (simp add: unitsOf_def conversionRates_def lengthRates_def)
  have h3: "''km'' \<in> set (unitsOf ''length'')"
    by (simp add: unitsOf_def conversionRates_def lengthRates_def)
  from convert_roundtrip [OF h1 h2 h3, of 5] h1 h2 h3 show ?thesis by blast
qed

section \<open>JavaScript strings\<close>

text \<open>
  A JavaScript string is a sequence of 16-bit code units.  String literals of the
  source that are plain ASCII are written with \<open>js\<close>.
\<close>

type_synonym jschar = "16 word"

type_synonym jsstring = "jschar list"

definition js :: "string \<Rightarrow> jsstring" where
  "js s = map of_char s"

text \<open>
  \<open>String.prototype.trim\<close> removes white space and line terminators from both ends:
  TAB, LF, VT, FF, CR, SPACE, NBSP, U+1680, U+2000 to U+200A, U+2028, U+2029, U+202F,
  U+205F, U+3000 and U+FEFF.
\<close>

definition isWhiteSpace :: "jschar \<Rightarrow> bool" where
  "isWhiteSpace c \<longleftrightarrow>
     c \<in> {0x09, 0x0A, 0x0B, 0x0C, 0x0D, 0x20, 0xA0, 0x1680, 0x2028, 0x2029,
          0x202F, 0x205F, 0x3000, 0xFEFF}
     \<or> (0x2000 \<le> c \<and> c \<le> 0x200A)"

definition trim :: "jsstring \<Rightarrow> jsstring" where
  "trim s = rev (dropWhile isWhiteSpace (rev (dropWhile isWhiteSpace s)))"

text \<open>\<open>s.substring(a, b)\<close> for \<open>a \<le> b\<close>, and \<open>s.substring(a)\<close>.\<close>

definition substring :: "jsstring \<Rightarrow> nat \<Rightarrow> nat \<Rightarrow> jsstring" where
  "substring s a b = take (b - a) (drop a s)"

section \<open>Regular expressions: the fragment the source uses\<close>

text \<open>
  The source builds two kinds of regular expressions: the literal
  \<open>/^#?([a-f\d]{2})([a-f\d]{2})([a-f\d]{2})$/i\<close> of \<open>hexToRgb\<close>, and
  \<open>new RegExp(escaped, 'gi')\<close> where \<open>escaped\<close> is the search text with every syntax
  character preceded by a backslash.  A pattern is modelled as the sequence of its
  terms: a pattern character, a character class (a list of inclusive ranges), an
  optional pattern character (\<open>c?\<close>, greedy), the parentheses of a capturing group
  with its number, and the assertions \<open>^\<close> and \<open>$\<close> (without the flag \<open>m\<close>).
\<close>

datatype item =
    Chr jschar
  | Cls "(jschar \<times> jschar) list"
  | OptChr jschar
  | Open nat
  | Close nat
  | Bol
  | Eol

text \<open>
  \<open>Canonicalize\<close> of the language specification for a pattern without the flag
  \<open>u\<close>.  With \<open>ignoreCase\<close> a code unit is mapped to its upper case when that is a
  single code unit, except that a code unit from 128 on is never mapped below 128.
  Upper case on ASCII maps \<open>a\<close> to \<open>z\<close> to \<open>A\<close> to \<open>Z\<close>; above ASCII it is the
  Unicode table of the host, the parameter \<open>up\<close> (with \<open>up c = c\<close> where the upper
  case of \<open>c\<close> is not one code unit).
\<close>

definition asciiUpper :: "jschar \<Rightarrow> jschar" where
  "asciiUpper c = (if 0x61 \<le> c \<and> c \<le> 0x7A then c - 0x20 else c)"

definition canonicalize :: "(jschar \<Rightarrow> jschar) \<Rightarrow> bool \<Rightarrow> jschar \<Rightarrow> jschar" where
  "canonicalize up ic ch =
     (if \<not> ic then ch
      else if ch < 128 then asciiUpper ch
      else (let cu = up ch in if cu < 128 then ch else cu))"

definition classMembers :: "(jschar \<times> jschar) list \<Rightarrow> jschar list" where
  "classMembers rs = concat (map (\<lambda>(lo, hi). map of_nat [unat lo ..< Suc (unat hi)]) rs)"

text \<open>A class matches a code unit when some member has the same canonical form.\<close>

definition clsMatches :: "(jschar \<Rightarrow> jschar) \<Rightarrow> bool \<Rightarrow> (jschar \<times> jschar) list \<Rightarrow> jschar \<Rightarrow> bool" where
  "clsMatches up ic rs ch =
     list_ex (\<lambda>a. canonicalize up ic a = canonicalize up ic ch) (classMembers rs)"

type_synonym captures = "(nat \<times> (nat \<times> nat)) list"

text \<open>
  The backtracking matcher.  \<open>rest\<close> is the input from position \<open>p\<close> on, \<open>st\<close> holds
  the start positions of the groups that are open, \<open>cs\<close> the groups closed so far
  (number, start, end).  The result is the end position of the match and its groups.
\<close>

fun matchItems ::
  "(jschar \<Rightarrow> jschar) \<Rightarrow> bool \<Rightarrow> item list \<Rightarrow> jsstring \<Rightarrow> nat \<Rightarrow> (nat \<times> nat) list \<Rightarrow> captures
    \<Rightarrow> (nat \<times> captures) option" where
  "matchItems up ic [] rest p st cs = Some (p, cs)"
| "matchItems up ic (Chr c # its) [] p st cs = None"
| "matchItems up ic (Chr c # its) (x # xs) p st cs =
     (if canonicalize up ic x = canonicalize up ic c
      then matchItems up ic its xs (Suc p) st cs else None)"
| "matchItems up ic (Cls rs # its) [] p st cs = None"
| "matchItems up ic (Cls rs # its) (x # xs) p st cs =
     (if clsMatches up ic rs x then matchItems up ic its xs (Suc p) st cs else None)"
| "matchItems up ic (OptChr c # its) [] p st cs = matchItems up ic its [] p st cs"
| "matchItems up ic (OptChr c # its) (x # xs) p st cs =
     (if canonicalize up ic x = canonicalize up ic c
      then (case matchItems up ic its xs (Suc p) st cs of
              Some r \<Rightarrow> Some r
            | None \<Rightarrow> matchItems up ic its (x # xs) p st cs)
      else matchItems up ic its (x # xs) p st cs)"
| "matchItems up ic (Open k # its) rest p st cs = matchItems up ic its rest p ((k, p) # st) cs"
| "matchItems up ic (Close k # its) rest p st cs =
     (case map_of st k of
        None \<Rightarrow> None
      | Some b \<Rightarrow> matchItems up ic its rest p st ((k, (b, p)) # cs))"
| "matchItems up ic (Bol # its) rest p st cs =
     (if p = 0 then matchItems up ic its rest p st cs else None)"
| "matchItems up ic (Eol # its) rest p st cs =
     (if rest = [] then matchItems up ic its rest p st cs else None)"

text \<open>
  The first position from \<open>i\<close> on at which the pattern matches: the loop of
  \<open>RegExpBuiltinExec\<close>, which tries every start position up to the end of the input.
\<close>

function scanFrom ::
  "(jschar \<Rightarrow> jschar) \<Rightarrow> bool \<Rightarrow> item list \<Rightarrow> jsstring \<Rightarrow> nat
    \<Rightarrow> (nat \<times> nat \<times> captures) option" where
  "scanFrom up ic its s i =
     (if length s < i then None
      else case matchItems up ic its (drop i s) i [] [] of
             Some (e, cs) \<Rightarrow> Some (i, e, cs)
           | None \<Rightarrow> scanFrom up ic its s (Suc i))"
  by pat_completeness auto
termination
  by (relation "measure (\<lambda>(up, ic, its, s, i). Suc (length s) - i)") auto

declare scanFrom.simps [simp del]

record regexp =
  items :: "item list"
  global :: bool
  ignoreCase :: bool
  lastIndex :: nat

text \<open>The result array of \<open>exec\<close>: \<open>index\<close>, the matched text and the groups.\<close>

record execResult =
  index :: nat
  matched :: jsstring
  groups :: "(nat \<times> jsstring) list"

definition regexExec ::
  "(jschar \<Rightarrow> jschar) \<Rightarrow> regexp \<Rightarrow> jsstring \<Rightarrow> execResult option \<times> regexp" where
  "regexExec up re s =
     (let start = (if global re then lastIndex re else 0) in
      case scanFrom up (ignoreCase re) (items re) s start of
        None \<Rightarrow> (None, if global re then re\<lparr>lastIndex := 0\<rparr> else re)
      | Some (i, e, cs) \<Rightarrow>
          (Some \<lparr>index = i, matched = substring s i e,
                 groups = map (\<lambda>(k, (a, b)). (k, substring s a b)) cs\<rparr>,
           if global re then re\<lparr>lastIndex := e\<rparr> else re))"

text \<open>
  The fourteen syntax characters \<open>^ $ \ . * + ? ( ) [ ] { } |\<close>.  The parser accepts
  the patterns made of pattern characters and of syntax characters escaped with a
  backslash, which are the patterns \<open>new RegExp\<close> receives from the source; on any
  other pattern the model gives \<open>None\<close>.
\<close>

definition syntaxChars :: "jschar list" where
  "syntaxChars =
     [0x5E, 0x24, 0x5C, 0x2E, 0x2A, 0x2B, 0x3F, 0x28, 0x29, 0x5B, 0x5D, 0x7B, 0x7D, 0x7C]"

fun parsePattern :: "jsstring \<Rightarrow> item list option" where
  "parsePattern [] = Some []"
| "parsePattern [c] = (if c \<in> set syntaxChars then None else Some [Chr c])"
| "parsePattern (c # d # ds) =
     (if c = 0x5C then
        (if d \<in> set syntaxChars then map_option ((#) (Chr d)) (parsePattern ds) else None)
      else if c \<in> set syntaxChars then None
      else map_option ((#) (Chr c)) (parsePattern (d # ds)))"

definition newRegExp :: "jsstring \<Rightarrow> bool \<Rightarrow> bool \<Rightarrow> regexp option" where
  "newRegExp pattern g i =
     map_option (\<lambda>its. \<lparr>items = its, global = g, ignoreCase = i, lastIndex = 0\<rparr>)
       (parsePattern pattern)"

text \<open>
  \<open>searchText.replace(/[.*+?^${}()|[\]\\]/g, '\\$&')\<close>: every code unit of the
  class is replaced by a backslash followed by itself.
\<close>

definition escapedChars :: "jschar list" where
  "escapedChars =
     [0x2E, 0x2A, 0x2B, 0x3F, 0x5E, 0x24, 0x7B, 0x7D, 0x28, 0x29, 0x7C, 0x5B, 0x5D, 0x5C]"

definition escapeRegExp :: "jsstring \<Rightarrow> jsstring" where
  "escapeRegExp s = concat (map (\<lambda>c. if c \<in> set escapedChars then [0x5C, c] else [c]) s)"

lemma matchItems_end:
  "matchItems up ic its rest p st cs = Some (e, cs') \<Longrightarrow> p \<le> e"
proof (induction up ic its rest p st cs rule: matchItems.induct)
  case (7 up ic c its x xs p st cs)
  then show ?case
    by (fastforce split: if_splits option.splits)
qed (fastforce split: if_splits option.splits)+

lemma scanFrom_bounds:
  "scanFrom up ic its s k = Some (i, e, cs) \<Longrightarrow> k \<le> i \<and> i \<le> length s \<and> i \<le> e"
proof (induction up ic its s k rule: scanFrom.induct)
  case (1 up ic its s k)
  from "1.prems" have le: "\<not> length s < k"
    by (subst (asm) scanFrom.simps) (simp split: if_splits)
  show ?case
  proof (cases "matchItems up ic its (drop k s) k [] []")
    case None
    with "1.prems" le have "scanFrom up ic its s (Suc k) = Some (i, e, cs)"
      by (subst (asm) scanFrom.simps) simp
    from "1.IH" [OF le None this] show ?thesis by simp
  next
    case (Some a)
    obtain e' cs' where a: "a = (e', cs')" by (cases a)
    with "1.prems" le Some have "i = k" "e = e'"
      by (subst (asm) scanFrom.simps, simp)+
    with Some a matchItems_end [of up ic its "drop k s" k "[]" "[]" e' cs'] le
    show ?thesis by simp
  qed
qed

section \<open>Search\<close>

text \<open>
  The part of the page state that the search functions read and write: the editor
  text, the search field, \<open>searchMatches\<close>, \<open>currentMatchIndex\<close>, the two numbers shown
  in \<open>searchCount\<close> and the selection set by \<open>setSelectionRange\<close>.  The fields of a
  match are \<open>index\<close>, \<open>text\<close> and \<open>end\<close> in the source.
\<close>

record searchMatch =
  mIndex :: nat
  mText :: jsstring
  mEnd :: nat

record searchState =
  editorValue :: jsstring
  searchInputValue :: jsstring
  searchMatches :: "searchMatch list"
  currentMatchIndex :: int
  searchCount :: "int \<times> nat"
  selection :: "(nat \<times> nat) option"

definition clearSearchHighlights :: "searchState \<Rightarrow> searchState" where
  "clearSearchHighlights st = st\<lparr>searchMatches := [], currentMatchIndex := - 1, searchCount := (0, 0)\<rparr>"

text \<open>
  \<open>highlightCurrentMatch\<close> reads \<open>searchMatches[currentMatchIndex]\<close>; with an index
  past the end the source would read a field of \<open>undefined\<close> and throw: \<open>None\<close>.
  The scroll position it also sets is left out.
\<close>

definition highlightCurrentMatch :: "searchState \<Rightarrow> searchState option" where
  "highlightCurrentMatch st =
     (if searchMatches st = [] \<or> currentMatchIndex st < 0 then Some st
      else if nat (currentMatchIndex st) < length (searchMatches st)
      then (let m = searchMatches st ! nat (currentMatchIndex st)
            in Some (st\<lparr>selection := Some (mIndex m, mEnd m)\<rparr>))
      else None)"

text \<open>
  The loop \<open>while ((match = regex.exec(content)) !== null)\<close>.  Nothing in the loop
  itself makes it end, so it is a partial function: \<open>None\<close> is a loop that runs
  forever.
\<close>

partial_function (option) searchLoop ::
  "(jschar \<Rightarrow> jschar) \<Rightarrow> regexp \<Rightarrow> jsstring \<Rightarrow> searchMatch list \<Rightarrow> searchMatch list option" where
  "searchLoop up regex content acc =
     (case regexExec up regex content of
        (None, regex') \<Rightarrow> Some acc
      | (Some m, regex') \<Rightarrow>
          searchLoop up regex' content
            (acc @ [\<lparr>mIndex = index m, mText = matched m,
                     mEnd = index m + length (matched m)\<rparr>]))"

declare searchLoop.simps [code]

text \<open>
  \<open>performSearch\<close>.  \<open>None\<close> stands for a run that does not complete: the constructor
  \<open>RegExp\<close> rejects the pattern, the loop does not end, or \<open>highlightCurrentMatch\<close>
  throws.
\<close>

definition performSearch :: "(jschar \<Rightarrow> jschar) \<Rightarrow> searchState \<Rightarrow> searchState option" where
  "performSearch up st =
     (let searchText = trim (searchInputValue st) in
      if searchText = [] then Some (clearSearchHighlights (st\<lparr>searchCount := (0, 0)\<rparr>))
      else
        let st1 = st\<lparr>searchMatches := [], currentMatchIndex := - 1\<rparr>;
            content = editorValue st1
        in case newRegExp (escapeRegExp searchText) True True of
             None \<Rightarrow> None
           | Some regex \<Rightarrow>
               (case searchLoop up regex content (searchMatches st1) of
                  None \<Rightarrow> None
                | Some ms \<Rightarrow>
                    (let st2 = st1\<lparr>searchMatches := ms\<rparr> in
                     case (if 0 < length ms
                           then highlightCurrentMatch (st2\<lparr>currentMatchIndex := 0\<rparr>)
                           else Some st2) of
                       None \<Rightarrow> None
                     | Some st3 \<Rightarrow>
                         Some (st3\<lparr>searchCount :=
                                 (currentMatchIndex st3 + 1, length (searchMatches st3))\<rparr>))))"

definition navigateSearch :: "int \<Rightarrow> searchState \<Rightarrow> searchState option" where
  "navigateSearch direction st =
     (if length (searchMatches st) = 0 then Some st
      else
        let i = currentMatchIndex st + direction;
            i' = (if i < 0 then int (length (searchMatches st)) - 1
                  else if int (length (searchMatches st)) \<le> i then 0
                  else i)
        in case highlightCurrentMatch (st\<lparr>currentMatchIndex := i'\<rparr>) of
             None \<Rightarrow> None
           | Some st' \<Rightarrow>
               Some (st'\<lparr>searchCount :=
                       (currentMatchIndex st' + 1, length (searchMatches st'))\<rparr>))"

text \<open>The state when the script has loaded, before any search.\<close>

definition initialSearchState :: "jsstring \<Rightarrow> jsstring \<Rightarrow> searchState" where
  "initialSearchState content query =
     \<lparr>editorValue = content, searchInputValue = query, searchMatches = [],
      currentMatchIndex = - 1, searchCount = (0, 0), selection = None\<rparr>"

text \<open>
  What it means for the query to occur in the content at a position: the code units
  there agree with the query one by one up to case (the canonical form under the flag
  \<open>i\<close>).
\<close>

definition ciEqual :: "(jschar \<Rightarrow> jschar) \<Rightarrow> jsstring \<Rightarrow> jsstring \<Rightarrow> bool" where
  "ciEqual up t q = list_all2 (\<lambda>x c. canonicalize up True x = canonicalize up True c) t q"

definition occursAt :: "(jschar \<Rightarrow> jschar) \<Rightarrow> jsstring \<Rightarrow> jsstring \<Rightarrow> nat \<Rightarrow> bool" where
  "occursAt up q content p \<longleftrightarrow>
     p + length q \<le> length content \<and> ciEqual up (substring content p (p + length q)) q"

definition literalRegex :: "jsstring \<Rightarrow> nat \<Rightarrow> regexp" where
  "literalRegex q k = \<lparr>items = map Chr q, global = True, ignoreCase = True, lastIndex = k\<rparr>"

definition isOccurrence :: "(jschar \<Rightarrow> jschar) \<Rightarrow> jsstring \<Rightarrow> jsstring \<Rightarrow> searchMatch \<Rightarrow> bool" where
  "isOccurrence up q content m \<longleftrightarrow>
     occursAt up q content (mIndex m)
     \<and> mText m = substring content (mIndex m) (mIndex m + length q)
     \<and> mEnd m = mIndex m + length q"

definition matchesFrom :: "(jschar \<Rightarrow> jschar) \<Rightarrow> jsstring \<Rightarrow> jsstring \<Rightarrow> nat \<Rightarrow> searchMatch list \<Rightarrow> bool" where
  "matchesFrom up q content k ms \<longleftrightarrow>
     (\<forall>m\<in>set ms. k \<le> mIndex m \<and> isOccurrence up q content m)
     \<and> sorted_wrt (\<lambda>m m'. mEnd m \<le> mIndex m') ms
     \<and> (\<forall>p\<ge>k. occursAt up q content p \<longrightarrow> (\<exists>m\<in>set ms. mIndex m \<le> p \<and> p < mEnd m))"

definition allOccurrences ::
  "(jschar \<Rightarrow> jschar) \<Rightarrow> jsstring \<Rightarrow> jsstring \<Rightarrow> searchMatch list \<Rightarrow> bool" where
  "allOccurrences up q content ms \<longleftrightarrow>
     (\<forall>m\<in>set ms. occursAt up q content (mIndex m)
         \<and> mText m = substring content (mIndex m) (mIndex m + length q)
         \<and> mEnd m = mIndex m + length q
         \<and> mEnd m = mIndex m + length (mText m))
     \<and> sorted_wrt (\<lambda>m m'. mEnd m \<le> mIndex m') ms
     \<and> (\<forall>p. occursAt up q content p \<longrightarrow> (\<exists>m\<in>set ms. mIndex m \<le> p \<and> p < mEnd m))"

text \<open>
  Sequences of the three operations.  A call of \<open>performSearch\<close> reads the editor and
  the search field as they are at that moment, so the operation carries both values.
\<close>

datatype searchOp =
    PerformSearch jsstring jsstring
  | NavigateSearch int
  | ClearSearchHighlights

fun applyOp :: "(jschar \<Rightarrow> jschar) \<Rightarrow> searchOp \<Rightarrow> searchState \<Rightarrow> searchState option" where
  "applyOp up (PerformSearch content query) st =
     performSearch up (st\<lparr>editorValue := content, searchInputValue := query\<rparr>)"
| "applyOp up (NavigateSearch direction) st = navigateSearch direction st"
| "applyOp up ClearSearchHighlights st = Some (clearSearchHighlights st)"

fun applyOps :: "(jschar \<Rightarrow> jschar) \<Rightarrow> searchOp list \<Rightarrow> searchState \<Rightarrow> searchState option" where
  "applyOps up [] st = Some st"
| "applyOps up (op # ops) st =
     (case applyOp up op st of None \<Rightarrow> None | Some st' \<Rightarrow> applyOps up ops st')"

definition searchInvariant :: "searchState \<Rightarrow> bool" where
  "searchInvariant st \<longleftrightarrow>
     (searchMatches st = [] \<and> currentMatchIndex st = - 1)
     \<or> (searchMatches st \<noteq> [] \<and> 0 \<le> currentMatchIndex st
         \<and> currentMatchIndex st \<le> int (length (searchMatches st)) - 1)"

definition oneMatchState :: searchState where
  "oneMatchState =
     \<lparr>editorValue = js ''ab'', searchInputValue = js ''b'',
      searchMatches = [\<lparr>mIndex = 1, mText = js ''b'', mEnd = 2\<rparr>],
      currentMatchIndex = 0, searchCount = (1, 1), selection = Some (1, 2)\<rparr>"

lemma set_escapedChars: "set escapedChars = set syntaxChars"
  by (simp add: escapedChars_def syntaxChars_def) blast

lemma backslash_syntax: "0x5C \<in> set syntaxChars"
  by (simp add: syntaxChars_def)

lemma parsePattern_plain:
  "c \<notin> set syntaxChars \<Longrightarrow> parsePattern (c # t) = map_option ((#) (Chr c)) (parsePattern t)"
  using backslash_syntax by (cases t) auto

lemma parsePattern_escaped:
  "c \<in> set syntaxChars \<Longrightarrow> parsePattern (0x5C # c # t) = map_option ((#) (Chr c)) (parsePattern t)"
  by simp

lemma parsePattern_escapeRegExp: "parsePattern (escapeRegExp q) = Some (map Chr q)"
proof (induction q)
  case Nil
  show ?case by (simp add: escapeRegExp_def)
next
  case (Cons c q)
  have step: "escapeRegExp (c # q) = (if c \<in> set syntaxChars then [0x5C, c] else [c]) @ escapeRegExp q"
    by (simp add: escapeRegExp_def set_escapedChars)
  show ?case
  proof (cases "c \<in> set syntaxChars")
    case True
    then show ?thesis
      unfolding step using Cons.IH by (simp add: parsePattern_escaped del: parsePattern.simps)
  next
    case False
    then show ?thesis
      unfolding step using Cons.IH by (simp add: parsePattern_plain del: parsePattern.simps)
  qed
qed

lemma matchItems_literal:
  "matchItems up ic (map Chr q) rest p st cs =
     (if length q \<le> length rest
         \<and> list_all2 (\<lambda>x c. canonicalize up ic x = canonicalize up ic c) (take (length q) rest) q
      then Some (p + length q, cs) else None)"
proof (induction q arbitrary: rest p)
  case Nil
  show ?case by simp
next
  case (Cons c q)
  show ?case
  proof (cases rest)
    case Nil
    then show ?thesis by simp
  next
    case (Cons x xs)
    then show ?thesis by (simp add: Cons.IH)
  qed
qed

lemma matchItems_literal_occursAt:
  assumes "i \<le> length s"
  shows "matchItems up True (map Chr q) (drop i s) i [] [] =
           (if occursAt up q s i then Some (i + length q, []) else None)"
proof -
  have "length q \<le> length s - i \<longleftrightarrow> i + length q \<le> length s" using assms by arith
  then show ?thesis
    by (simp add: matchItems_literal occursAt_def ciEqual_def substring_def)
qed

lemma occursAt_bound: "occursAt up q s p \<Longrightarrow> p \<le> length s"
  by (simp add: occursAt_def)

lemma scanFrom_literal_None:
  "scanFrom up True (map Chr q) s i = None \<Longrightarrow> i \<le> p \<Longrightarrow> \<not> occursAt up q s p"
proof (induction up True "map Chr q" s i rule: scanFrom.induct)
  case (1 up s i)
  show ?case
  proof (cases "length s < i")
    case True
    with "1.prems"(2) show ?thesis using occursAt_bound [of up q s p] by auto
  next
    case False
    then have le: "i \<le> length s" by simp
    from "1.prems"(1) False
    have m: "matchItems up True (map Chr q) (drop i s) i [] [] = None"
      and rec: "scanFrom up True (map Chr q) s (Suc i) = None"
      by (subst (asm) scanFrom.simps, simp split: option.splits)+
    from m have ni: "\<not> occursAt up q s i"
      by (simp add: matchItems_literal_occursAt [OF le] split: if_splits)
    show ?thesis
    proof (cases "p = i")
      case True
      with ni show ?thesis by simp
    next
      case False
      with "1.prems"(2) have "Suc i \<le> p" by simp
      with "1.hyps" [OF \<open>\<not> length s < i\<close> m rec] show ?thesis by simp
    qed
  qed
qed

lemma scanFrom_literal_Some:
  "scanFrom up True (map Chr q) s i = Some (j, e, cs) \<Longrightarrow>
     i \<le> j \<and> e = j + length q \<and> cs = [] \<and> occursAt up q s j
     \<and> (\<forall>p. i \<le> p \<and> p < j \<longrightarrow> \<not> occursAt up q s p)"
proof (induction up True "map Chr q" s i rule: scanFrom.induct)
  case (1 up s i)
  from "1.prems" have le: "i \<le> length s"
    by (subst (asm) scanFrom.simps) (simp split: if_splits)
  then have nlt: "\<not> length s < i" by simp
  show ?case
  proof (cases "occursAt up q s i")
    case True
    with "1.prems" le have "j = i" "e = i + length q" "cs = []"
      by (subst (asm) scanFrom.simps, simp add: matchItems_literal_occursAt)+
    with True show ?thesis by auto
  next
    case False
    then have m: "matchItems up True (map Chr q) (drop i s) i [] [] = None"
      by (simp add: matchItems_literal_occursAt [OF le])
    with "1.prems" nlt have rec: "scanFrom up True (map Chr q) s (Suc i) = Some (j, e, cs)"
      by (subst (asm) scanFrom.simps) simp
    from "1.hyps" [OF nlt m rec]
    have ih: "Suc i \<le> j \<and> e = j + length q \<and> cs = [] \<and> occursAt up q s j
       \<and> (\<forall>p. Suc i \<le> p \<and> p < j \<longrightarrow> \<not> occursAt up q s p)" .
    have "\<not> occursAt up q s p" if "i \<le> p \<and> p < j" for p
    proof (cases "p = i")
      case True
      with False show ?thesis by simp
    next
      case False
      with that have "Suc i \<le> p \<and> p < j" by simp
      with ih show ?thesis by blast
    qed
    with ih show ?thesis by auto
  qed
qed

lemma regexExec_literal_None:
  assumes "regexExec up (literalRegex q k) s = (None, re')"
  shows "\<forall>p\<ge>k. \<not> occursAt up q s p"
proof -
  from assms have "scanFrom up True (map Chr q) s k = None"
    by (auto simp: regexExec_def literalRegex_def Let_def split: option.splits)
  then show ?thesis using scanFrom_literal_None by blast
qed

lemma regexExec_literal_Some:
  assumes "regexExec up (literalRegex q k) s = (Some res, re')"
  shows "re' = literalRegex q (index res + length q)
         \<and> k \<le> index res
         \<and> isOccurrence up q s \<lparr>mIndex = index res, mText = matched res,
                                   mEnd = index res + length (matched res)\<rparr>
         \<and> (\<forall>p. k \<le> p \<and> p < index res \<longrightarrow> \<not> occursAt up q s p)"
proof -
  from assms obtain j e cs where sc: "scanFrom up True (map Chr q) s k = Some (j, e, cs)"
    and res: "res = \<lparr>index = j, matched = substring s j e,
                     groups = map (\<lambda>(k, (a, b)). (k, substring s a b)) cs\<rparr>"
    and re': "re' = literalRegex q e"
    by (auto simp: regexExec_def literalRegex_def Let_def split: option.splits)
  from scanFrom_literal_Some [OF sc]
  have f: "k \<le> j" "e = j + length q" "occursAt up q s j"
    "\<forall>p. k \<le> p \<and> p < j \<longrightarrow> \<not> occursAt up q s p" by simp_all
  from f(3) have "j + length q \<le> length s" by (simp add: occursAt_def)
  then have len: "length (substring s j (j + length q)) = length q"
    by (simp add: substring_def)
  show ?thesis using f len res re' by (simp add: isOccurrence_def)
qed

lemma isOccurrence_length: "isOccurrence up q s m \<Longrightarrow> length (mText m) = length q"
  by (auto simp: isOccurrence_def occursAt_def substring_def)

lemma matchesFrom_Nil: "\<forall>p\<ge>k. \<not> occursAt up q s p \<Longrightarrow> matchesFrom up q s k []"
  by (simp add: matchesFrom_def)

lemma matchesFrom_Cons:
  assumes occ: "isOccurrence up q s m" and k: "k \<le> mIndex m"
    and first: "\<forall>p. k \<le> p \<and> p < mIndex m \<longrightarrow> \<not> occursAt up q s p"
    and rest: "matchesFrom up q s (mEnd m) ms"
  shows "matchesFrom up q s k (m # ms)"
proof -
  from occ have e: "mIndex m \<le> mEnd m" by (simp add: isOccurrence_def)
  from rest have r1: "\<And>m'. m' \<in> set ms \<Longrightarrow> mEnd m \<le> mIndex m' \<and> isOccurrence up q s m'"
    and r2: "sorted_wrt (\<lambda>m m'. mEnd m \<le> mIndex m') ms"
    and r3: "\<And>p. mEnd m \<le> p \<Longrightarrow> occursAt up q s p \<Longrightarrow> \<exists>m'\<in>set ms. mIndex m' \<le> p \<and> p < mEnd m'"
    unfolding matchesFrom_def by blast+
  have a: "k \<le> mIndex m' \<and> isOccurrence up q s m'" if "m' \<in> set (m # ms)" for m'
  proof (cases "m' = m")
    case True
    with occ k show ?thesis by simp
  next
    case False
    with that have "m' \<in> set ms" by simp
    from r1 [OF this] k e show ?thesis by simp
  qed
  have b: "sorted_wrt (\<lambda>m m'. mEnd m \<le> mIndex m') (m # ms)"
    using r1 r2 by simp
  have c: "\<exists>m'\<in>set (m # ms). mIndex m' \<le> p \<and> p < mEnd m'"
    if "k \<le> p" "occursAt up q s p" for p
  proof (cases "p < mEnd m")
    case True
    from first that have "\<not> p < mIndex m" by blast
    with True have "mIndex m \<le> p \<and> p < mEnd m" by simp
    then show ?thesis by (meson list.set_intros(1))
  next
    case False
    then have "mEnd m \<le> p" by simp
    from r3 [OF this that(2)] obtain m' where "m' \<in> set ms" "mIndex m' \<le> p \<and> p < mEnd m'"
      by blast
    then show ?thesis by (meson list.set_intros(2))
  qed
  show ?thesis unfolding matchesFrom_def
  proof (intro conjI ballI allI impI)
    fix m' assume "m' \<in> set (m # ms)"
    from a [OF this] show "k \<le> mIndex m'" and "isOccurrence up q s m'" by simp_all
  next
    show "sorted_wrt (\<lambda>m m'. mEnd m \<le> mIndex m') (m # ms)" by (rule b)
  next
    fix p assume "k \<le> p" "occursAt up q s p"
    then show "\<exists>m'\<in>set (m # ms). mIndex m' \<le> p \<and> p < mEnd m'" by (rule c)
  qed
qed

lemma searchLoop_literal:
  assumes "q \<noteq> []"
  shows "\<exists>ms. searchLoop up (literalRegex q k) s acc = Some (acc @ ms) \<and> matchesFrom up q s k ms"
proof (induction "Suc (length s) - k" arbitrary: k acc rule: less_induct)
  case less
  obtain r re' where ex: "regexExec up (literalRegex q k) s = (r, re')"
    by (cases "regexExec up (literalRegex q k) s") auto
  show ?case
  proof (cases r)
    case None
    with ex have "searchLoop up (literalRegex q k) s acc = Some acc"
      by (subst searchLoop.simps) simp
    moreover from ex None have "matchesFrom up q s k []"
      using regexExec_literal_None [of up q k s re'] matchesFrom_Nil [of k up q s] by simp
    ultimately show ?thesis by auto
  next
    case (Some res)
    let ?m = "\<lparr>mIndex = index res, mText = matched res, mEnd = index res + length (matched res)\<rparr>"
    from ex Some have ex': "regexExec up (literalRegex q k) s = (Some res, re')" by simp
    note R = regexExec_literal_Some [OF ex']
    from R have re': "re' = literalRegex q (index res + length q)" by (rule conjunct1)
    from R have k: "k \<le> index res" by blast
    from R have occ: "isOccurrence up q s ?m" by blast
    from R have first: "\<forall>p. k \<le> p \<and> p < index res \<longrightarrow> \<not> occursAt up q s p" by blast
    from isOccurrence_length [OF occ] have len: "length (matched res) = length q" by simp
    from occ have bound: "index res + length q \<le> length s"
      by (simp add: isOccurrence_def occursAt_def)
    from assms have "0 < length q" by simp
    with k bound have "Suc (length s) - (index res + length q) < Suc (length s) - k" by arith
    from less [OF this, of "acc @ [?m]"] obtain ms where
      ms: "searchLoop up (literalRegex q (index res + length q)) s (acc @ [?m]) = Some ((acc @ [?m]) @ ms)"
      and mf: "matchesFrom up q s (index res + length q) ms" by blast
    from ms have "searchLoop up (literalRegex q k) s acc = Some (acc @ (?m # ms))"
      by (subst searchLoop.simps) (simp add: ex' re')
    moreover have "matchesFrom up q s k (?m # ms)"
      using occ k first mf len by (intro matchesFrom_Cons) simp_all
    ultimately show ?thesis by blast
  qed
qed

lemma matchesFrom_allOccurrences:
  assumes "matchesFrom up q content 0 ms"
  shows "allOccurrences up q content ms"
proof -
  have "occursAt up q content (mIndex m)
         \<and> mText m = substring content (mIndex m) (mIndex m + length q)
         \<and> mEnd m = mIndex m + length q
         \<and> mEnd m = mIndex m + length (mText m)" if "m \<in> set ms" for m
  proof -
    from assms that have occ: "isOccurrence up q content m" unfolding matchesFrom_def by blast
    from isOccurrence_length [OF occ] have len: "length (mText m) = length q" .
    from occ have a: "occursAt up q content (mIndex m)"
      and b: "mText m = substring content (mIndex m) (mIndex m + length q)"
      and c: "mEnd m = mIndex m + length q"
      by (simp_all add: isOccurrence_def)
    from c len have d: "mEnd m = mIndex m + length (mText m)" by (simp only:)
    from a b c d show ?thesis by (intro conjI)
  qed
  moreover from assms have "sorted_wrt (\<lambda>m m'. mEnd m \<le> mIndex m') ms"
    unfolding matchesFrom_def by blast
  moreover from assms
  have "\<forall>p. occursAt up q content p \<longrightarrow> (\<exists>m\<in>set ms. mIndex m \<le> p \<and> p < mEnd m)"
    unfolding matchesFrom_def by simp
  ultimately show ?thesis unfolding allOccurrences_def by blast
qed

lemma isOccurrence_eq:
  assumes "isOccurrence up q content m" and "isOccurrence up q content m'"
    and "mIndex m = mIndex m'"
  shows "m = m'"
proof (rule searchMatch.equality)
  show "mIndex m = mIndex m'" by (rule assms(3))
  from assms show "mText m = mText m'" by (simp add: isOccurrence_def)
  from assms show "mEnd m = mEnd m'" by (simp add: isOccurrence_def)
  show "searchMatch.more m = searchMatch.more m'" by simp
qed

lemma matchesFrom_tail:
  assumes "matchesFrom up q content k (m # ms)"
  shows "matchesFrom up q content (mEnd m) ms"
proof -
  from assms have occ: "isOccurrence up q content m" and k: "k \<le> mIndex m"
    and all: "\<And>m'. m' \<in> set ms \<Longrightarrow> isOccurrence up q content m'"
    and after: "\<And>m'. m' \<in> set ms \<Longrightarrow> mEnd m \<le> mIndex m'"
    and sorted: "sorted_wrt (\<lambda>m m'. mEnd m \<le> mIndex m') ms"
    and cover: "\<And>p. k \<le> p \<Longrightarrow> occursAt up q content p
                  \<Longrightarrow> \<exists>m'\<in>set (m # ms). mIndex m' \<le> p \<and> p < mEnd m'"
    unfolding matchesFrom_def by auto
  from occ have e: "mIndex m \<le> mEnd m" by (simp add: isOccurrence_def)
  have "\<exists>m'\<in>set ms. mIndex m' \<le> p \<and> p < mEnd m'"
    if p: "mEnd m \<le> p" and o: "occursAt up q content p" for p
  proof -
    from k e p have "k \<le> p" by simp
    from cover [OF this o] obtain m' where
      m': "m' \<in> set (m # ms)" "mIndex m' \<le> p" "p < mEnd m'" by blast
    from m'(3) p have "m' \<noteq> m" by auto
    with m'(1) have "m' \<in> set ms" by simp
    with m'(2,3) show ?thesis by blast
  qed
  with all after sorted show ?thesis unfolding matchesFrom_def by blast
qed

lemma matchesFrom_first:
  assumes "matchesFrom up q content k (m # ms)"
    and "k \<le> p" and "p < mIndex m"
  shows "\<not> occursAt up q content p"
proof
  assume o: "occursAt up q content p"
  from assms(1) have occ: "isOccurrence up q content m"
    and after: "\<And>m'. m' \<in> set ms \<Longrightarrow> mEnd m \<le> mIndex m'"
    and cover: "\<And>p. k \<le> p \<Longrightarrow> occursAt up q content p
                  \<Longrightarrow> \<exists>m'\<in>set (m # ms). mIndex m' \<le> p \<and> p < mEnd m'"
    unfolding matchesFrom_def by auto
  from occ have e: "mIndex m \<le> mEnd m" by (simp add: isOccurrence_def)
  from cover [OF assms(2) o] obtain m' where
    m': "m' \<in> set (m # ms)" "mIndex m' \<le> p" "p < mEnd m'" by blast
  from m'(2) assms(3) have "m' \<noteq> m" by auto
  with m'(1) have "m' \<in> set ms" by simp
  from after [OF this] m'(2) assms(3) e show False by simp
qed

lemma matchesFrom_head:
  assumes "matchesFrom up q content k (m # ms)" and "matchesFrom up q content k (m' # ms')"
  shows "m = m'"
proof -
  from assms have occ: "isOccurrence up q content m" "isOccurrence up q content m'"
    and k: "k \<le> mIndex m" "k \<le> mIndex m'"
    unfolding matchesFrom_def by auto
  from occ have o: "occursAt up q content (mIndex m)" "occursAt up q content (mIndex m')"
    by (simp_all add: isOccurrence_def)
  from matchesFrom_first [OF assms(2) k(1)] o(1) have "\<not> mIndex m < mIndex m'" by blast
  moreover from matchesFrom_first [OF assms(1) k(2)] o(2) have "\<not> mIndex m' < mIndex m" by blast
  ultimately have "mIndex m = mIndex m'" by simp
  with occ show ?thesis by (rule isOccurrence_eq)
qed

lemma matchesFrom_unique:
  assumes "matchesFrom up q content k ms" and "matchesFrom up q content k ms'"
  shows "ms = ms'"
  using assms
proof (induction ms arbitrary: ms' k)
  case Nil
  show ?case
  proof (cases ms')
    case Nil
    then show ?thesis by simp
  next
    case (Cons m' r')
    with Nil.prems(2) have "k \<le> mIndex m'" "occursAt up q content (mIndex m')"
      unfolding matchesFrom_def isOccurrence_def by auto
    with Nil.prems(1) show ?thesis unfolding matchesFrom_def by auto
  qed
next
  case (Cons m r)
  show ?case
  proof (cases ms')
    case Nil
    from Cons.prems(1) have "k \<le> mIndex m" "occursAt up q content (mIndex m)"
      unfolding matchesFrom_def isOccurrence_def by auto
    with Cons.prems(2) Nil show ?thesis unfolding matchesFrom_def by auto
  next
    case (Cons m' r')
    with Cons.prems have h: "m = m'" using matchesFrom_head by blast
    from Cons.prems(1) have t: "matchesFrom up q content (mEnd m) r" by (rule matchesFrom_tail)
    from Cons.prems(2) Cons h have t': "matchesFrom up q content (mEnd m) r'"
      using matchesFrom_tail by blast
    from Cons.IH [OF t t'] h Cons show ?thesis by simp
  qed
qed

lemma allOccurrences_matchesFrom:
  assumes "allOccurrences up q content ms"
  shows "matchesFrom up q content 0 ms"
proof -
  from assms have a: "\<And>m. m \<in> set ms \<Longrightarrow> isOccurrence up q content m"
    and b: "sorted_wrt (\<lambda>m m'. mEnd m \<le> mIndex m') ms"
    and c: "\<And>p. occursAt up q content p \<Longrightarrow> \<exists>m\<in>set ms. mIndex m \<le> p \<and> p < mEnd m"
    unfolding allOccurrences_def isOccurrence_def by blast+
  from a b c show ?thesis unfolding matchesFrom_def by simp
qed

lemma allOccurrences_unique:
  assumes "allOccurrences up q content ms" and "allOccurrences up q content ms'"
  shows "ms = ms'"
  using assms [THEN allOccurrences_matchesFrom] by (rule matchesFrom_unique)

lemma newRegExp_escaped: "newRegExp (escapeRegExp q) True True = Some (literalRegex q 0)"
  by (simp add: newRegExp_def parsePattern_escapeRegExp literalRegex_def)

lemma performSearch_nonempty:
  assumes "trim (searchInputValue st) \<noteq> []"
  shows "\<exists>ms. matchesFrom up (trim (searchInputValue st)) (editorValue st) 0 ms
           \<and> performSearch up st =
               Some (st\<lparr>searchMatches := ms,
                        currentMatchIndex := (if ms = [] then - 1 else 0),
                        searchCount := ((if ms = [] then 0 else 1), length ms),
                        selection := (if ms = [] then selection st
                                      else Some (mIndex (hd ms), mEnd (hd ms)))\<rparr>)"
proof -
  let ?q = "trim (searchInputValue st)"
  from searchLoop_literal [OF assms, of up 0 "editorValue st" "[]"] obtain ms where
    loop: "searchLoop up (literalRegex ?q 0) (editorValue st) [] = Some ms"
    and mf: "matchesFrom up ?q (editorValue st) 0 ms" by auto
  have "performSearch up st =
               Some (st\<lparr>searchMatches := ms,
                        currentMatchIndex := (if ms = [] then - 1 else 0),
                        searchCount := ((if ms = [] then 0 else 1), length ms),
                        selection := (if ms = [] then selection st
                                      else Some (mIndex (hd ms), mEnd (hd ms)))\<rparr>)"
  proof (cases ms)
    case Nil
    with assms loop show ?thesis
      by (simp add: performSearch_def Let_def newRegExp_escaped)
  next
    case (Cons m ms')
    with assms loop show ?thesis
      by (simp add: performSearch_def Let_def newRegExp_escaped highlightCurrentMatch_def)
  qed
  with mf show ?thesis by blast
qed

text \<open>
  Claim C4.  When the trimmed search text is not empty, \<open>performSearch\<close> completes and
  \<open>searchMatches\<close> holds all occurrences of the literal trimmed text: every recorded
  match lies at a position where the content agrees with the text code unit by code
  unit up to case, its \<open>text\<close> is the content from \<open>index\<close> over the length of the
  trimmed text, and \<open>end\<close> is \<open>index\<close> plus that length, which is the length of
  \<open>text\<close>; the matches are in ascending order and do not overlap; every position
  where the text occurs lies inside a recorded match that starts there or earlier;
  no other list of matches has these properties; and \<open>currentMatchIndex\<close> is 0 when
  there is a match and -1 otherwise.
\<close>

theorem performSearch_finds_all:
  assumes "trim (searchInputValue st) \<noteq> []"
  shows "\<exists>st'. performSearch up st = Some st'
           \<and> allOccurrences up (trim (searchInputValue st)) (editorValue st) (searchMatches st')
           \<and> (\<forall>ms. allOccurrences up (trim (searchInputValue st)) (editorValue st) ms
                  \<longrightarrow> ms = searchMatches st')
           \<and> currentMatchIndex st' = (if searchMatches st' = [] then - 1 else 0)"
proof -
  from performSearch_nonempty [OF assms, of up] obtain ms where
    mf: "matchesFrom up (trim (searchInputValue st)) (editorValue st) 0 ms"
    and ps: "performSearch up st =
               Some (st\<lparr>searchMatches := ms,
                        currentMatchIndex := (if ms = [] then - 1 else 0),
                        searchCount := ((if ms = [] then 0 else 1), length ms),
                        selection := (if ms = [] then selection st
                                      else Some (mIndex (hd ms), mEnd (hd ms)))\<rparr>)"
    by blast
  from mf have occ: "allOccurrences up (trim (searchInputValue st)) (editorValue st) ms"
    by (rule matchesFrom_allOccurrences)
  have uniq: "\<forall>ms'. allOccurrences up (trim (searchInputValue st)) (editorValue st) ms'
                  \<longrightarrow> ms' = ms"
    using allOccurrences_unique [OF _ occ] by blast
  let ?st' = "st\<lparr>searchMatches := ms,
                  currentMatchIndex := (if ms = [] then - 1 else 0),
                  searchCount := ((if ms = [] then 0 else 1), length ms),
                  selection := (if ms = [] then selection st
                                else Some (mIndex (hd ms), mEnd (hd ms)))\<rparr>"
  have sm: "searchMatches ?st' = ms" by simp
  have cm: "currentMatchIndex ?st' = (if ms = [] then - 1 else 0)" by simp
  show ?thesis
  proof (intro exI conjI)
    show "performSearch up st = Some ?st'" by (rule ps)
    show "allOccurrences up (trim (searchInputValue st)) (editorValue st) (searchMatches ?st')"
      unfolding sm by (rule occ)
    show "\<forall>ms'. allOccurrences up (trim (searchInputValue st)) (editorValue st) ms'
             \<longrightarrow> ms' = searchMatches ?st'"
      unfolding sm by (rule uniq)
    show "currentMatchIndex ?st' = (if searchMatches ?st' = [] then - 1 else 0)"
      unfolding sm by (rule cm)
  qed
qed

theorem performSearch_finds_all_witness:
  "trim (searchInputValue (initialSearchState (js ''a.b A.B axb a.b'') (js '' a.B ''))) \<noteq> []
   \<and> (\<exists>st'. performSearch (\<lambda>c. c) (initialSearchState (js ''a.b A.B axb a.b'') (js '' a.B '')) = Some st'
         \<and> allOccurrences (\<lambda>c. c) (js ''a.B'') (js ''a.b A.B axb a.b'') (searchMatches st')
         \<and> searchMatches st' =
              [\<lparr>mIndex = 0, mText = js ''a.b'', mEnd = 3\<rparr>,
               \<lparr>mIndex = 4, mText = js ''A.B'', mEnd = 7\<rparr>,
               \<lparr>mIndex = 12, mText = js ''a.b'', mEnd = 15\<rparr>]
         \<and> currentMatchIndex st' = 0)"
proof -
  let ?st = "initialSearchState (js ''a.b A.B axb a.b'') (js '' a.B '')"
  have q: "trim (searchInputValue ?st) = js ''a.B''" by code_simp
  have e: "editorValue ?st = js ''a.b A.B axb a.b''" by (simp add: initialSearchState_def)
  have h: "trim (searchInputValue ?st) \<noteq> []" by code_simp
  from performSearch_finds_all [OF h, of "\<lambda>c. c"] obtain st' where
    A: "performSearch (\<lambda>c. c) ?st = Some st'
        \<and> allOccurrences (\<lambda>c. c) (trim (searchInputValue ?st)) (editorValue ?st) (searchMatches st')
        \<and> (\<forall>ms. allOccurrences (\<lambda>c. c) (trim (searchInputValue ?st)) (editorValue ?st) ms
               \<longrightarrow> ms = searchMatches st')
        \<and> currentMatchIndex st' = (if searchMatches st' = [] then - 1 else 0)" ..
  from A have 1: "performSearch (\<lambda>c. c) ?st = Some st'" by (elim conjE)
  from A have 2: "allOccurrences (\<lambda>c. c) (js ''a.B'') (js ''a.b A.B axb a.b'') (searchMatches st')"
    unfolding q e by (elim conjE)
  from A have 3: "currentMatchIndex st' = (if searchMatches st' = [] then - 1 else 0)"
    by (elim conjE)
  have "map_option searchMatches (performSearch (\<lambda>c. c) ?st) =
          Some [\<lparr>mIndex = 0, mText = js ''a.b'', mEnd = 3\<rparr>,
               \<lparr>mIndex = 4, mText = js ''A.B'', mEnd = 7\<rparr>,
               \<lparr>mIndex = 12, mText = js ''a.b'', mEnd = 15\<rparr>]" by code_simp
  with 1 have 4: "searchMatches st' =
              [\<lparr>mIndex = 0, mText = js ''a.b'', mEnd = 3\<rparr>,
               \<lparr>mIndex = 4, mText = js ''A.B'', mEnd = 7\<rparr>,
               \<lparr>mIndex = 12, mText = js ''a.b'', mEnd = 15\<rparr>]" by simp
  with 3 have 5: "currentMatchIndex st' = 0" by simp
  from h 1 2 4 5 show ?thesis by blast
qed

lemma searchInvariant_initial: "searchInvariant (initialSearchState content query)"
  by (simp add: searchInvariant_def initialSearchState_def)

lemma searchInvariant_clear: "searchInvariant (clearSearchHighlights st)"
  by (simp add: searchInvariant_def clearSearchHighlights_def)

lemma performSearch_invariant: "\<exists>st'. performSearch up st = Some st' \<and> searchInvariant st'"
proof (cases "trim (searchInputValue st) = []")
  case True
  then show ?thesis by (simp add: performSearch_def searchInvariant_clear)
next
  case False
  from performSearch_nonempty [OF False, of up] obtain ms where
    "performSearch up st =
               Some (st\<lparr>searchMatches := ms,
                        currentMatchIndex := (if ms = [] then - 1 else 0),
                        searchCount := ((if ms = [] then 0 else 1), length ms),
                        selection := (if ms = [] then selection st
                                      else Some (mIndex (hd ms), mEnd (hd ms)))\<rparr>)"
    by blast
  then show ?thesis by (cases ms) (simp_all add: searchInvariant_def)
qed

lemma navigateSearch_index:
  assumes "searchMatches st \<noteq> []"
  shows "\<exists>st'. navigateSearch direction st = Some st'
           \<and> searchMatches st' = searchMatches st
           \<and> currentMatchIndex st' =
               (let i = currentMatchIndex st + direction in
                if i < 0 then int (length (searchMatches st)) - 1
                else if int (length (searchMatches st)) \<le> i then 0 else i)"
proof -
  let ?n = "int (length (searchMatches st))"
  let ?i = "currentMatchIndex st + direction"
  let ?i' = "if ?i < 0 then ?n - 1 else if ?n \<le> ?i then 0 else ?i"
  from assms have n: "0 < ?n" by simp
  then have range: "0 \<le> ?i' \<and> ?i' < ?n" by auto
  then have "nat ?i' < length (searchMatches st)" by linarith
  with range assms have
    "highlightCurrentMatch (st\<lparr>currentMatchIndex := ?i'\<rparr>) =
       Some (st\<lparr>currentMatchIndex := ?i',
                selection := Some (mIndex (searchMatches st ! nat ?i'),
                                   mEnd (searchMatches st ! nat ?i'))\<rparr>)"
    by (simp add: highlightCurrentMatch_def Let_def)
  with assms show ?thesis by (simp add: navigateSearch_def Let_def)
qed

lemma navigateSearch_invariant:
  assumes "searchInvariant st"
  shows "\<exists>st'. navigateSearch direction st = Some st' \<and> searchInvariant st'"
proof (cases "searchMatches st = []")
  case True
  with assms show ?thesis by (simp add: navigateSearch_def)
next
  case False
  from navigateSearch_index [OF False, of direction] obtain st' where
    st': "navigateSearch direction st = Some st'" "searchMatches st' = searchMatches st"
    "currentMatchIndex st' =
               (let i = currentMatchIndex st + direction in
                if i < 0 then int (length (searchMatches st)) - 1
                else if int (length (searchMatches st)) \<le> i then 0 else i)" by blast
  from False have "0 < int (length (searchMatches st))" by simp
  with st'(2,3) False have "searchInvariant st'"
    by (auto simp: searchInvariant_def Let_def)
  with st'(1) show ?thesis by blast
qed

lemma applyOp_invariant:
  assumes "searchInvariant st"
  shows "\<exists>st'. applyOp up op st = Some st' \<and> searchInvariant st'"
proof (cases op)
  case (PerformSearch content query)
  then show ?thesis using performSearch_invariant by simp
next
  case (NavigateSearch direction)
  then show ?thesis using navigateSearch_invariant [OF assms] by simp
next
  case ClearSearchHighlights
  then show ?thesis by (simp add: searchInvariant_clear)
qed

lemma applyOps_invariant:
  "searchInvariant st \<Longrightarrow> \<exists>st'. applyOps up ops st = Some st' \<and> searchInvariant st'"
proof (induction ops arbitrary: st)
  case Nil
  then show ?case by simp
next
  case (Cons op ops)
  from applyOp_invariant [OF Cons.prems, of up op] obtain st1 where
    1: "applyOp up op st = Some st1" and 2: "searchInvariant st1" by blast
  from Cons.IH [OF 2] 1 show ?case by simp
qed

text \<open>
  Claim C8.  The state at load satisfies the invariant: either \<open>searchMatches\<close> is empty
  and \<open>currentMatchIndex\<close> is -1, or \<open>searchMatches\<close> is not empty and
  \<open>currentMatchIndex\<close> lies between 0 and \<open>searchMatches.length - 1\<close>.  From a state with
  the invariant every sequence of \<open>performSearch\<close>, \<open>navigateSearch\<close> (with any
  direction) and \<open>clearSearchHighlights\<close> completes in a state with the invariant.
  \<open>navigateSearch(1)\<close> at the last match moves to the first, and \<open>navigateSearch(-1)\<close>
  at the first match moves to the last.
\<close>

theorem search_state_invariant:
  "searchInvariant (initialSearchState content query)
   \<and> (searchInvariant st \<longrightarrow> (\<exists>st'. applyOps up ops st = Some st' \<and> searchInvariant st'))
   \<and> (searchMatches st \<noteq> [] \<and> currentMatchIndex st = int (length (searchMatches st)) - 1
        \<longrightarrow> (\<exists>st'. navigateSearch 1 st = Some st' \<and> currentMatchIndex st' = 0))
   \<and> (searchMatches st \<noteq> [] \<and> currentMatchIndex st = 0
        \<longrightarrow> (\<exists>st'. navigateSearch (- 1) st = Some st'
                \<and> currentMatchIndex st' = int (length (searchMatches st)) - 1))"
proof (intro conjI impI)
  show "searchInvariant (initialSearchState content query)" by (rule searchInvariant_initial)
next
  assume "searchInvariant st"
  then show "\<exists>st'. applyOps up ops st = Some st' \<and> searchInvariant st'"
    by (rule applyOps_invariant)
next
  assume a: "searchMatches st \<noteq> [] \<and> currentMatchIndex st = int (length (searchMatches st)) - 1"
  then have ne: "searchMatches st \<noteq> []" by simp
  from navigateSearch_index [OF ne, of 1] a
  show "\<exists>st'. navigateSearch 1 st = Some st' \<and> currentMatchIndex st' = 0"
    by (auto simp: Let_def)
next
  assume a: "searchMatches st \<noteq> [] \<and> currentMatchIndex st = 0"
  then have ne: "searchMatches st \<noteq> []" by simp
  from navigateSearch_index [OF ne, of "- 1"] a
  show "\<exists>st'. navigateSearch (- 1) st = Some st'
                \<and> currentMatchIndex st' = int (length (searchMatches st)) - 1"
    by (auto simp: Let_def)
qed

theorem search_state_invariant_witness:
  "searchInvariant oneMatchState
   \<and> searchMatches oneMatchState \<noteq> []
   \<and> currentMatchIndex oneMatchState = int (length (searchMatches oneMatchState)) - 1
   \<and> currentMatchIndex oneMatchState = 0
   \<and> (\<exists>st'. applyOps (\<lambda>c. c)
               [NavigateSearch 1, PerformSearch (js ''xAxa'') (js ''a''), NavigateSearch (- 1),
                ClearSearchHighlights, NavigateSearch 1]
               oneMatchState = Some st' \<and> searchInvariant st')
   \<and> (\<exists>st'. navigateSearch 1 oneMatchState = Some st' \<and> currentMatchIndex st' = 0)
   \<and> (\<exists>st'. navigateSearch (- 1) oneMatchState = Some st'
         \<and> currentMatchIndex st' = int (length (searchMatches oneMatchState)) - 1)"
proof -
  have h1: "searchInvariant oneMatchState"
    by (simp add: searchInvariant_def oneMatchState_def)
  have h2: "searchMatches oneMatchState \<noteq> []" by (simp add: oneMatchState_def)
  have h3: "currentMatchIndex oneMatchState = int (length (searchMatches oneMatchState)) - 1"
    by (simp add: oneMatchState_def)
  have h4: "currentMatchIndex oneMatchState = 0" by (simp add: oneMatchState_def)
  from search_state_invariant [of "[]" "[]" oneMatchState "\<lambda>c. c"
      "[NavigateSearch 1, PerformSearch (js ''xAxa'') (js ''a''), NavigateSearch (- 1),
                ClearSearchHighlights, NavigateSearch 1]"] h1 h2 h3 h4
  show ?thesis by blast
qed

section \<open>Replace all\<close>

text \<open>
  \<open>String.prototype.match\<close> and \<open>String.prototype.replace\<close> with a regular expression
  that has the flag \<open>g\<close> run \<open>exec\<close> from position 0 until it fails, stepping one
  position further after an empty match.  The loop ends because every match ends at
  or after the position at which it starts.
\<close>

function execAllFrom ::
  "(jschar \<Rightarrow> jschar) \<Rightarrow> bool \<Rightarrow> item list \<Rightarrow> jsstring \<Rightarrow> nat \<Rightarrow> (nat \<times> nat \<times> captures) list" where
  "execAllFrom up ic its s k =
     (case scanFrom up ic its s k of
        None \<Rightarrow> []
      | Some (i, e, cs) \<Rightarrow>
          (i, e, cs) # execAllFrom up ic its s (if e = i then Suc e else e))"
  by pat_completeness auto
termination
proof (relation "measure (\<lambda>(up, ic, its, s, k). Suc (length s) - k)", goal_cases)
  case 1
  show ?case by simp
next
  case (2 up ic its s k x2 i y e cs)
  then have "scanFrom up ic its s k = Some (i, e, cs)" by simp
  from scanFrom_bounds [OF this] show ?case by auto
qed

declare execAllFrom.simps [simp del]

text \<open>
  \<open>s.match(regex)\<close>: \<open>null\<close> without a match, else the matched texts.
\<close>

definition stringMatch :: "(jschar \<Rightarrow> jschar) \<Rightarrow> regexp \<Rightarrow> jsstring \<Rightarrow> jsstring list option" where
  "stringMatch up regex s =
     (case execAllFrom up (ignoreCase regex) (items regex) s 0 of
        [] \<Rightarrow> None
      | rs \<Rightarrow> Some (map (\<lambda>(i, e, cs). substring s i e) rs))"

text \<open>
  \<open>GetSubstitution\<close> for a pattern without groups: in the replacement text \<open>$$\<close>
  stands for \<open>$\<close>, \<open>$&\<close> for the matched text, \<open>$`\<close> for the text before the match
  and \<open>$'\<close> for the text after it; every other code unit stands for itself.
\<close>

fun getSubstitution :: "jsstring \<Rightarrow> jsstring \<Rightarrow> nat \<Rightarrow> jsstring \<Rightarrow> jsstring" where
  "getSubstitution mtext str position [] = []"
| "getSubstitution mtext str position [c] = [c]"
| "getSubstitution mtext str position (c # d # t) =
     (if c = 0x24 then
        (if d = 0x24 then 0x24 # getSubstitution mtext str position t
         else if d = 0x26 then mtext @ getSubstitution mtext str position t
         else if d = 0x60 then take position str @ getSubstitution mtext str position t
         else if d = 0x27 then
           drop (position + length mtext) str @ getSubstitution mtext str position t
         else c # getSubstitution mtext str position (d # t))
      else c # getSubstitution mtext str position (d # t))"

fun buildReplace :: "jsstring \<Rightarrow> jsstring \<Rightarrow> nat \<Rightarrow> (nat \<times> nat \<times> captures) list \<Rightarrow> jsstring" where
  "buildReplace s replacement nextPos [] = drop nextPos s"
| "buildReplace s replacement nextPos ((i, e, cs) # rs) =
     (if nextPos \<le> i
      then substring s nextPos i @ getSubstitution (substring s i e) s i replacement
             @ buildReplace s replacement e rs
      else buildReplace s replacement nextPos rs)"

definition stringReplace :: "(jschar \<Rightarrow> jschar) \<Rightarrow> regexp \<Rightarrow> jsstring \<Rightarrow> jsstring \<Rightarrow> jsstring" where
  "stringReplace up regex s replacement =
     buildReplace s replacement 0 (execAllFrom up (ignoreCase regex) (items regex) s 0)"

text \<open>
  The click handler of the replace-all button.  \<open>confirmed\<close> is the answer given to
  \<open>confirm\<close>; the result is the new state and the toast shown, if any.  The \<open>input\<close>
  event it dispatches reaches listeners outside the search state and is left out.
\<close>

datatype toast = ToastEnterSearchText | ToastNoMatch | ToastReplaced nat

definition replaceAll ::
  "(jschar \<Rightarrow> jschar) \<Rightarrow> jsstring \<Rightarrow> bool \<Rightarrow> searchState \<Rightarrow> (searchState \<times> toast option) option" where
  "replaceAll up replaceText confirmed st =
     (let searchText = trim (searchInputValue st) in
      if searchText = [] then Some (st, Some ToastEnterSearchText)
      else case newRegExp (escapeRegExp searchText) True True of
             None \<Rightarrow> None
           | Some regex \<Rightarrow>
               (let matchCount = (case stringMatch up regex (editorValue st) of
                                    None \<Rightarrow> 0 | Some found \<Rightarrow> length found)
                in if matchCount = 0 then Some (st, Some ToastNoMatch)
                   else if confirmed then
                     (case performSearch up
                             (st\<lparr>editorValue := stringReplace up regex (editorValue st) replaceText\<rparr>) of
                        None \<Rightarrow> None
                      | Some st' \<Rightarrow> Some (st', Some (ToastReplaced matchCount)))
                   else Some (st, None)))"

text \<open>
  The content with the recorded matches cut out and a fixed text put in the place of
  each.
\<close>

fun spliceAll :: "jsstring \<Rightarrow> nat \<Rightarrow> searchMatch list \<Rightarrow> jsstring \<Rightarrow> jsstring" where
  "spliceAll content pos [] replacement = drop pos content"
| "spliceAll content pos (m # ms) replacement =
     substring content pos (mIndex m) @ replacement @ spliceAll content (mEnd m) ms replacement"

definition toSearchMatch :: "jsstring \<Rightarrow> nat \<times> nat \<times> captures \<Rightarrow> searchMatch" where
  "toSearchMatch s x = (case x of (i, e, cs) \<Rightarrow> \<lparr>mIndex = i, mText = substring s i e, mEnd = e\<rparr>)"

text \<open>
  Claim C5.  The claim says that replace-all puts the replacement string in the place
  of every occurrence.  With the content \<open>cost: x\<close>, the query \<open>x\<close> and the replacement
  \<open>$$\<close>, the handler reports one replacement and leaves \<open>cost: $\<close> in the editor, not
  \<open>cost: $$\<close>.
\<close>

theorem replaceAll_dollar:
  "map_option (\<lambda>(st', t). (editorValue st', t))
     (replaceAll (\<lambda>c. c) (js ''$$'') True (initialSearchState (js ''cost: x'') (js ''x'')))
   = Some (js ''cost: $'', Some (ToastReplaced 1))"
  by code_simp

lemma toSearchMatch_fields:
  "mIndex (toSearchMatch s (i, e, cs)) = i"
  "mEnd (toSearchMatch s (i, e, cs)) = e"
  "mText (toSearchMatch s (i, e, cs)) = substring s i e"
  by (simp_all add: toSearchMatch_def)

lemma getSubstitution_plain:
  "0x24 \<notin> set replacement \<Longrightarrow> getSubstitution mtext str position replacement = replacement"
  by (induction mtext str position replacement rule: getSubstitution.induct) auto

lemma searchLoop_execAllFrom:
  assumes "q \<noteq> []"
  shows "searchLoop up (literalRegex q k) s acc
           = Some (acc @ map (toSearchMatch s) (execAllFrom up True (map Chr q) s k))"
proof (induction up True "map Chr q" s k arbitrary: acc rule: execAllFrom.induct)
  case (1 up s k)
  show ?case
  proof (cases "scanFrom up True (map Chr q) s k")
    case None
    then have "regexExec up (literalRegex q k) s = (None, (literalRegex q k)\<lparr>lastIndex := 0\<rparr>)"
      by (simp add: regexExec_def literalRegex_def)
    with None show ?thesis
      by (subst searchLoop.simps, subst execAllFrom.simps) simp
  next
    case (Some x)
    obtain i e cs where x: "x = (i, e, cs)" by (cases x)
    from scanFrom_literal_Some [of up q s k i e cs] Some x
    have e: "e = i + length q" and occ: "occursAt up q s i" by simp_all
    from e assms have ne: "e \<noteq> i" by simp
    from occ have "i + length q \<le> length s" by (simp add: occursAt_def)
    then have len: "length (substring s i e) = length q" by (simp add: substring_def e)
    from Some x have ex: "regexExec up (literalRegex q k) s =
        (Some \<lparr>index = i, matched = substring s i e,
               groups = map (\<lambda>(k, (a, b)). (k, substring s a b)) cs\<rparr>, literalRegex q e)"
      by (simp add: regexExec_def literalRegex_def)
    have ih: "searchLoop up (literalRegex q e) s (acc @ [toSearchMatch s (i, e, cs)])
           = Some ((acc @ [toSearchMatch s (i, e, cs)])
                    @ map (toSearchMatch s) (execAllFrom up True (map Chr q) s e))"
    proof -
      have a: "scanFrom up True (map Chr q) s k = Some (i, e, cs)" using Some x by simp
      have b: "(i, (e, cs)) = (i, e, cs)" and c: "(e, cs) = (e, cs)" by simp_all
      have d: "(if e = i then Suc e else e) = e" using ne by simp
      from "1.hyps" [OF a b c, of "acc @ [toSearchMatch s (i, e, cs)]"]
      show ?thesis unfolding d .
    qed
    have "searchLoop up (literalRegex q k) s acc
            = searchLoop up (literalRegex q e) s (acc @ [toSearchMatch s (i, e, cs)])"
      by (subst searchLoop.simps) (simp add: ex toSearchMatch_def len [unfolded e] e)
    also note ih
    finally have 2: "searchLoop up (literalRegex q k) s acc
        = Some ((acc @ [toSearchMatch s (i, e, cs)])
                 @ map (toSearchMatch s) (execAllFrom up True (map Chr q) s e))" .
    have 3: "execAllFrom up True (map Chr q) s k = (i, e, cs) # execAllFrom up True (map Chr q) s e"
      by (subst execAllFrom.simps) (simp add: Some x ne)
    show ?thesis unfolding 2 3 by simp
  qed
qed

lemma buildReplace_plain:
  assumes "0x24 \<notin> set replacement"
    and "sorted_wrt (\<lambda>m m'. mEnd m \<le> mIndex m') (map (toSearchMatch s) rs)"
    and "\<forall>m\<in>set (map (toSearchMatch s) rs). pos \<le> mIndex m"
  shows "buildReplace s replacement pos rs = spliceAll s pos (map (toSearchMatch s) rs) replacement"
  using assms(2,3)
proof (induction rs arbitrary: pos)
  case Nil
  show ?case by simp
next
  case (Cons x rs)
  obtain i e cs where x: "x = (i, e, cs)" by (cases x)
  from Cons.prems(2) x have le: "pos \<le> i" by (simp add: toSearchMatch_fields)
  from Cons.prems(1) x have
    s: "sorted_wrt (\<lambda>m m'. mEnd m \<le> mIndex m') (map (toSearchMatch s) rs)"
    and b: "\<forall>m\<in>set (map (toSearchMatch s) rs). e \<le> mIndex m"
    by (simp_all add: toSearchMatch_fields)
  from Cons.IH [OF s b] le x show ?case
    by (simp add: getSubstitution_plain [OF assms(1)] toSearchMatch_fields)
qed

text \<open>
  When the replacement text has no \<open>$\<close>, replace-all does what is expected of it: with
  a search text that is not empty after trimming and the question confirmed, the
  editor ends with every occurrence of the search text replaced by the replacement
  text, the rest unchanged, and the count shown is the number of occurrences; without
  an occurrence nothing changes.
\<close>

theorem replaceAll_plain:
  assumes "trim (searchInputValue st) \<noteq> []" and "0x24 \<notin> set replaceText"
  shows "\<exists>ms. allOccurrences up (trim (searchInputValue st)) (editorValue st) ms
           \<and> (if ms = [] then replaceAll up replaceText True st = Some (st, Some ToastNoMatch)
               else \<exists>st'. replaceAll up replaceText True st
                              = Some (st', Some (ToastReplaced (length ms)))
                          \<and> editorValue st' = spliceAll (editorValue st) 0 ms replaceText)"
proof -
  let ?q = "trim (searchInputValue st)"
  let ?c = "editorValue st"
  let ?rs = "execAllFrom up True (map Chr ?q) ?c 0"
  let ?ms = "map (toSearchMatch ?c) ?rs"
  from searchLoop_literal [OF assms(1), of up 0 ?c "[]"] obtain ms where
    "searchLoop up (literalRegex ?q 0) ?c [] = Some ms" and mf: "matchesFrom up ?q ?c 0 ms" by auto
  with searchLoop_execAllFrom [OF assms(1), of up 0 ?c "[]"] have "ms = ?ms" by simp
  with mf have mf': "matchesFrom up ?q ?c 0 ?ms" by simp
  then have occ: "allOccurrences up ?q ?c ?ms" by (rule matchesFrom_allOccurrences)
  from mf' have sorted: "sorted_wrt (\<lambda>m m'. mEnd m \<le> mIndex m') ?ms"
    by (simp add: matchesFrom_def)
  have count: "(case stringMatch up (literalRegex ?q 0) ?c of None \<Rightarrow> 0 | Some found \<Rightarrow> length found)
                 = length ?ms"
    by (cases ?rs) (simp_all add: stringMatch_def literalRegex_def)
  have repl: "stringReplace up (literalRegex ?q 0) ?c replaceText = spliceAll ?c 0 ?ms replaceText"
    unfolding stringReplace_def using buildReplace_plain [OF assms(2) sorted, of 0]
    by (simp add: literalRegex_def)
  show ?thesis
  proof (cases "?ms = []")
    case True
    with assms(1) count have "replaceAll up replaceText True st = Some (st, Some ToastNoMatch)"
      by (simp add: replaceAll_def Let_def newRegExp_escaped)
    with True occ show ?thesis by (intro exI [of _ ?ms]) simp
  next
    case False
    let ?st1 = "st\<lparr>editorValue := spliceAll ?c 0 ?ms replaceText\<rparr>"
    from assms(1) have "trim (searchInputValue ?st1) \<noteq> []" by simp
    from performSearch_nonempty [OF this, of up] obtain st' where
      ps: "performSearch up ?st1 = Some st'" and ev: "editorValue st' = editorValue ?st1"
      by auto
    from False have "length ?ms \<noteq> 0" by simp
    with assms(1) count repl ps
    have "replaceAll up replaceText True st = Some (st', Some (ToastReplaced (length ?ms)))"
      by (simp add: replaceAll_def Let_def newRegExp_escaped)
    with ev False occ show ?thesis by (intro exI [of _ ?ms]) simp
  qed
qed

theorem replaceAll_plain_witness:
  "trim (searchInputValue (initialSearchState (js ''cost: x X'') (js ''x''))) \<noteq> []
   \<and> 0x24 \<notin> set (js ''y'')
   \<and> (\<exists>st'. replaceAll (\<lambda>c. c) (js ''y'') True (initialSearchState (js ''cost: x X'') (js ''x''))
               = Some (st', Some (ToastReplaced 2))
          \<and> editorValue st' = js ''cost: y y'')"
proof -
  let ?st = "initialSearchState (js ''cost: x X'') (js ''x'')"
  have h1: "trim (searchInputValue ?st) \<noteq> []" by code_simp
  have h2: "0x24 \<notin> set (js ''y'')" by (simp add: js_def)
  from replaceAll_plain [OF h1 h2, of "\<lambda>c. c"] obtain ms where
    "if ms = [] then replaceAll (\<lambda>c. c) (js ''y'') True ?st = Some (?st, Some ToastNoMatch)
     else \<exists>st'. replaceAll (\<lambda>c. c) (js ''y'') True ?st = Some (st', Some (ToastReplaced (length ms)))
                \<and> editorValue st' = spliceAll (editorValue ?st) 0 ms (js ''y'')"
    by blast
  then obtain st' t where r: "replaceAll (\<lambda>c. c) (js ''y'') True ?st = Some (st', t)"
    by (cases "ms = []") auto
  have "map_option (\<lambda>(st', t). (editorValue st', t)) (replaceAll (\<lambda>c. c) (js ''y'') True ?st)
          = Some (js ''cost: y y'', Some (ToastReplaced 2))" by code_simp
  with r have "t = Some (ToastReplaced 2)" "editorValue st' = js ''cost: y y''" by simp_all
  with r h1 h2 show ?thesis by blast
qed

section \<open>Timers\<close>

text \<open>
  \<open>setTimeout\<close> and \<open>clearTimeout\<close> on a clock that counts milliseconds.  A timer is its
  id, the time it is due and its callback.  The event loop is taken to be punctual:
  when time passes, every timer that falls due is run at the time it is due, the
  earlier first, and of two timers due together the one set first.
\<close>

type_synonym 'cb timer = "nat \<times> nat \<times> 'cb"

record 'cb eventLoop =
  clock :: nat
  timers :: "'cb timer list"
  nextId :: nat

definition newEventLoop :: "'cb eventLoop" where
  "newEventLoop = \<lparr>clock = 0, timers = [], nextId = 1\<rparr>"

definition setTimeout :: "'cb \<Rightarrow> nat \<Rightarrow> 'cb eventLoop \<Rightarrow> nat \<times> 'cb eventLoop" where
  "setTimeout cb delay el =
     (nextId el,
      el\<lparr>timers := timers el @ [(nextId el, clock el + delay, cb)], nextId := Suc (nextId el)\<rparr>)"

definition clearTimeout :: "nat option \<Rightarrow> 'cb eventLoop \<Rightarrow> 'cb eventLoop" where
  "clearTimeout h el =
     (case h of
        None \<Rightarrow> el
      | Some i \<Rightarrow> el\<lparr>timers := filter (\<lambda>t. fst t \<noteq> i) (timers el)\<rparr>)"

fun earliest :: "'cb timer list \<Rightarrow> 'cb timer option" where
  "earliest [] = None"
| "earliest (t # ts) =
     (case earliest ts of
        None \<Rightarrow> Some t
      | Some t' \<Rightarrow> if fst (snd t') < fst (snd t) then Some t' else Some t)"

definition nextTimer :: "nat \<Rightarrow> 'cb eventLoop \<Rightarrow> 'cb timer option" where
  "nextTimer target el =
     (case earliest (timers el) of
        None \<Rightarrow> None
      | Some t \<Rightarrow> if fst (snd t) \<le> target then Some t else None)"

definition takeTimer :: "'cb timer \<Rightarrow> 'cb eventLoop \<Rightarrow> 'cb eventLoop" where
  "takeTimer t el =
     el\<lparr>timers := filter (\<lambda>t'. fst t' \<noteq> fst t) (timers el),
        clock := max (clock el) (fst (snd t))\<rparr>"

definition idle :: "nat \<Rightarrow> 'cb eventLoop \<Rightarrow> 'cb eventLoop" where
  "idle target el = el\<lparr>clock := max (clock el) target\<rparr>"

text \<open>What a user of a wrapped function does: call it, or let time pass.\<close>

datatype 'a event = Call 'a | Wait nat

lemma earliest_mem: "earliest ts = Some t \<Longrightarrow> t \<in> set ts"
  by (induction ts arbitrary: t) (auto split: option.splits if_splits)

lemma nextTimer_mem: "nextTimer target el = Some t \<Longrightarrow> t \<in> set (timers el)"
  by (auto simp: nextTimer_def dest: earliest_mem split: option.splits if_splits)

lemma takeTimer_length:
  assumes "t \<in> set (timers el)"
  shows "length (timers (takeTimer t el)) < length (timers el)"
proof -
  have "length (filter (\<lambda>t'. fst t' \<noteq> fst t) (timers el)) < length (timers el)"
    using assms by (intro length_filter_less [of t]) auto
  then show ?thesis by (simp add: takeTimer_def)
qed

lemma clearTimeout_length: "length (timers (clearTimeout h el)) \<le> length (timers el)"
  by (cases h) (simp_all add: clearTimeout_def)

section \<open>Debounce\<close>

text \<open>
  The closure of \<open>debounce(func, wait)\<close>: the variable \<open>timeout\<close>, and the record of
  the calls of \<open>func\<close> (time and arguments).  The callback \<open>later\<close> of a timer is
  determined by the arguments it captured, so a timer carries those.
\<close>

record 'a debounceState =
  dLoop :: "'a eventLoop"
  timeout :: "nat option"
  dCalls :: "(nat \<times> 'a) list"

definition newDebounce :: "'a debounceState" where
  "newDebounce = \<lparr>dLoop = newEventLoop, timeout = None, dCalls = []\<rparr>"

definition later :: "'a \<Rightarrow> 'a debounceState \<Rightarrow> 'a debounceState" where
  "later args st =
     (let el = clearTimeout (timeout st) (dLoop st)
      in st\<lparr>dLoop := el, dCalls := dCalls st @ [(clock el, args)]\<rparr>)"

definition executedFunction :: "nat \<Rightarrow> 'a \<Rightarrow> 'a debounceState \<Rightarrow> 'a debounceState" where
  "executedFunction wait args st =
     (let el = clearTimeout (timeout st) (dLoop st);
          (h, el') = setTimeout args wait el
      in st\<lparr>dLoop := el', timeout := Some h\<rparr>)"

function dRunTimers :: "nat \<Rightarrow> 'a debounceState \<Rightarrow> 'a debounceState" where
  "dRunTimers target st =
     (case nextTimer target (dLoop st) of
        None \<Rightarrow> st\<lparr>dLoop := idle target (dLoop st)\<rparr>
      | Some t \<Rightarrow> dRunTimers target (later (snd (snd t)) (st\<lparr>dLoop := takeTimer t (dLoop st)\<rparr>)))"
  by pat_completeness auto
termination
proof (relation "measure (\<lambda>(target, st). length (timers (dLoop st)))", goal_cases)
  case 1
  show ?case by simp
next
  case (2 target st t)
  from nextTimer_mem [OF 2] have "length (timers (takeTimer t (dLoop st))) < length (timers (dLoop st))"
    by (rule takeTimer_length)
  moreover have "length (timers (dLoop (later (snd (snd t)) (st\<lparr>dLoop := takeTimer t (dLoop st)\<rparr>))))
      \<le> length (timers (takeTimer t (dLoop st)))"
    using clearTimeout_length [of "timeout st" "takeTimer t (dLoop st)"]
    by (simp add: later_def Let_def)
  ultimately show ?case by simp
qed

declare dRunTimers.simps [simp del]

fun dStep :: "nat \<Rightarrow> 'a event \<Rightarrow> 'a debounceState \<Rightarrow> 'a debounceState" where
  "dStep wait (Call args) st = executedFunction wait args st"
| "dStep wait (Wait d) st = dRunTimers (clock (dLoop st) + d) st"

fun dRun :: "nat \<Rightarrow> 'a event list \<Rightarrow> 'a debounceState \<Rightarrow> 'a debounceState" where
  "dRun wait [] st = st"
| "dRun wait (e # es) st = dRun wait es (dStep wait e st)"












lemma debounce_example:
  "dCalls (dRun 300 [Call (1::nat), Wait 100, Call 2, Wait 299, Call 3, Wait 300, Wait 5, Call 4,
                     Wait 1000] newDebounce)
     = [(699, 3), (1004, 4)]"
  by code_simp

section \<open>Throttle\<close>

text \<open>
  The closure of \<open>throttle(func, limit)\<close>: the flag \<open>inThrottle\<close> and the record of the
  invocations of \<open>func\<close>, each with the time at which it began and its arguments.  The
  only callback is the one that resets the flag.

  What \<open>func\<close> does in one invocation is given with the call: it runs for some
  milliseconds and then returns or throws, or it calls the wrapper itself.  In
  \<open>Reenters a\<close> it calls the wrapper once with \<open>a\<close> as it begins; the invocation nested
  in that call returns at once, and so does the outer one when its time has passed.
\<close>

datatype 'a outcome = Returns | Throws | Reenters 'a

record 'a throttleState =
  tLoop :: "unit eventLoop"
  inThrottle :: bool
  tCalls :: "(nat \<times> 'a) list"

definition newThrottle :: "'a throttleState" where
  "newThrottle = \<lparr>tLoop = newEventLoop, inThrottle = False, tCalls = []\<rparr>"

text \<open>
  A call of the wrapper either returns or lets the exception of \<open>func\<close> pass to its
  caller; in both cases the closure is left in some state.
\<close>

datatype 's completion = Returned 's | Threw 's

fun stateOf :: "'s completion \<Rightarrow> 's" where
  "stateOf (Returned s) = s"
| "stateOf (Threw s) = s"

text \<open>
  The wrapper, called with \<open>args\<close> when \<open>func\<close> runs for \<open>d\<close> milliseconds and ends as \<open>oc\<close>
  says.  \<open>func.apply(this, args)\<close> comes first; \<open>inThrottle = true\<close> and the \<open>setTimeout\<close>
  follow when it has returned, and are not reached when it throws.  In the nested call
  of \<open>Reenters a\<close> the flag is still unset, so that \<open>func\<close> is invoked with \<open>a\<close>, and the
  nested call sets the flag and a timer of its own.
\<close>

definition throttled ::
  "nat \<Rightarrow> 'a \<Rightarrow> nat \<Rightarrow> 'a outcome \<Rightarrow> 'a throttleState \<Rightarrow> 'a throttleState completion" where
  "throttled limit args d oc st =
     (if \<not> inThrottle st
      then
        (let st1 = st\<lparr>tCalls := tCalls st @ [(clock (tLoop st), args)]\<rparr>;
             st2 = (case oc of
                      Reenters a \<Rightarrow>
                        st1\<lparr>tCalls := tCalls st1 @ [(clock (tLoop st1), a)],
                            inThrottle := True,
                            tLoop := snd (setTimeout () limit (tLoop st1))\<rparr>
                    | _ \<Rightarrow> st1);
             st3 = st2\<lparr>tLoop := idle (clock (tLoop st2) + d) (tLoop st2)\<rparr>
         in case oc of
              Throws \<Rightarrow> Threw st3
            | _ \<Rightarrow> Returned (st3\<lparr>inThrottle := True,
                                  tLoop := snd (setTimeout () limit (tLoop st3))\<rparr>))
      else Returned st)"

text \<open>
  The event loop runs the callback of a timer when the timer is due and nothing else
  is running, so it may run it late.  \<open>runDue\<close> is one turn of the event loop: the
  timer that is due first, if any is due, is removed and its callback sets
  \<open>inThrottle = false\<close>.
\<close>

definition runDue :: "'a throttleState \<Rightarrow> 'a throttleState" where
  "runDue st =
     (case nextTimer (clock (tLoop st)) (tLoop st) of
        None \<Rightarrow> st
      | Some t \<Rightarrow> st\<lparr>tLoop := takeTimer t (tLoop st), inThrottle := False\<rparr>)"

text \<open>
  What happens to a throttled function: it is called; time passes while other code
  runs or nothing does, and no callback is run; or the event loop takes a turn.
\<close>

datatype 'a tEvent = Called 'a nat "'a outcome" | Elapse nat | RunDue

fun tStep :: "nat \<Rightarrow> 'a tEvent \<Rightarrow> 'a throttleState \<Rightarrow> 'a throttleState" where
  "tStep limit (Called args d oc) st = stateOf (throttled limit args d oc st)"
| "tStep limit (Elapse d) st = st\<lparr>tLoop := idle (clock (tLoop st) + d) (tLoop st)\<rparr>"
| "tStep limit RunDue st = runDue st"

fun tRun :: "nat \<Rightarrow> 'a tEvent list \<Rightarrow> 'a throttleState \<Rightarrow> 'a throttleState" where
  "tRun limit [] st = st"
| "tRun limit (e # es) st = tRun limit es (tStep limit e st)"

text \<open>Every invocation of \<open>func\<close> in the history returns, and none calls the wrapper.\<close>

fun returns :: "'a tEvent \<Rightarrow> bool" where
  "returns (Called args d Returns) = True"
| "returns (Called args d Throws) = False"
| "returns (Called args d (Reenters a)) = False"
| "returns (Elapse d) = True"
| "returns RunDue = True"

definition funcReturns :: "'a tEvent list \<Rightarrow> bool" where
  "funcReturns evs = list_all returns evs"

definition tInv :: "nat \<Rightarrow> 'a throttleState \<Rightarrow> bool" where
  "tInv limit st \<longleftrightarrow>
     sorted_wrt (\<lambda>x y. fst x + limit \<le> fst y) (tCalls st)
     \<and> (if inThrottle st
         then tCalls st \<noteq> []
              \<and> (\<exists>i due. timers (tLoop st) = [(i, due, ())]
                    \<and> fst (last (tCalls st)) + limit \<le> due)
         else timers (tLoop st) = []
              \<and> (\<forall>x\<in>set (tCalls st). fst x + limit \<le> clock (tLoop st)))"

lemma tInv_new: "tInv limit newThrottle"
  by (simp add: tInv_def newThrottle_def newEventLoop_def)

lemma sorted_wrt_last:
  assumes "sorted_wrt P xs" and "x \<in> set (butlast xs)"
  shows "P x (last xs)"
proof -
  from assms(2) have "xs \<noteq> []" by auto
  then have "xs = butlast xs @ [last xs]" by simp
  with assms(1) have "sorted_wrt P (butlast xs @ [last xs])" by simp
  with assms(2) show ?thesis by (simp add: sorted_wrt_append)
qed

lemma throttled_set:
  assumes "inThrottle st"
  shows "throttled limit args d oc st = Returned st"
  using assms by (simp add: throttled_def)

lemma throttled_unset:
  assumes "\<not> inThrottle st"
  shows "throttled limit args d Returns st =
           Returned (st\<lparr>tCalls := tCalls st @ [(clock (tLoop st), args)],
                        inThrottle := True,
                        tLoop := snd (setTimeout () limit (idle (clock (tLoop st) + d) (tLoop st)))\<rparr>)"
  using assms by (simp add: throttled_def Let_def)

lemma tInv_called:
  assumes "tInv limit st"
  shows "tInv limit (tStep limit (Called args d Returns) st)"
proof (cases "inThrottle st")
  case True
  with assms show ?thesis by (simp add: throttled_set)
next
  case False
  with assms have t: "timers (tLoop st) = []"
    and all: "\<forall>x\<in>set (tCalls st). fst x + limit \<le> clock (tLoop st)"
    and sorted: "sorted_wrt (\<lambda>x y. fst x + limit \<le> fst y) (tCalls st)"
    by (simp_all add: tInv_def)
  from sorted all
  have "sorted_wrt (\<lambda>x y. fst x + limit \<le> fst y) (tCalls st @ [(clock (tLoop st), args)])"
    by (simp add: sorted_wrt_append)
  with False t show ?thesis
    by (simp add: throttled_unset tInv_def setTimeout_def idle_def)
qed

lemma tInv_elapse:
  assumes "tInv limit st"
  shows "tInv limit (tStep limit (Elapse d) st)"
proof (cases "inThrottle st")
  case True
  with assms show ?thesis by (simp add: tInv_def idle_def)
next
  case False
  with assms have "\<forall>x\<in>set (tCalls st). fst x + limit \<le> clock (tLoop st)"
    by (simp add: tInv_def)
  then have "\<forall>x\<in>set (tCalls st). fst x + limit \<le> clock (tLoop st) + d" by fastforce
  with assms False show ?thesis by (simp add: tInv_def idle_def)
qed

lemma runDue_none:
  assumes "timers (tLoop st) = []"
  shows "runDue st = st"
  using assms by (simp add: runDue_def nextTimer_def)

lemma runDue_single:
  assumes "timers (tLoop st) = [(i, due, ())]"
  shows "runDue st =
           (if due \<le> clock (tLoop st)
            then st\<lparr>tLoop := (tLoop st)\<lparr>timers := []\<rparr>, inThrottle := False\<rparr>
            else st)"
  using assms by (simp add: runDue_def nextTimer_def takeTimer_def max_def)

lemma tInv_runDue:
  assumes "tInv limit st"
  shows "tInv limit (runDue st)"
proof (cases "inThrottle st")
  case False
  with assms have "timers (tLoop st) = []" by (simp add: tInv_def)
  with assms show ?thesis by (simp add: runDue_none)
next
  case True
  with assms obtain i due where
    t: "timers (tLoop st) = [(i, due, ())]"
    and due: "fst (last (tCalls st)) + limit \<le> due"
    and ne: "tCalls st \<noteq> []"
    and sorted: "sorted_wrt (\<lambda>x y. fst x + limit \<le> fst y) (tCalls st)"
    by (auto simp: tInv_def)
  show ?thesis
  proof (cases "due \<le> clock (tLoop st)")
    case notyet: False
    with assms t show ?thesis by (simp add: runDue_single)
  next
    case fired: True
    have "fst x + limit \<le> clock (tLoop st)" if "x \<in> set (tCalls st)" for x
    proof (cases "x \<in> set (butlast (tCalls st))")
      case True
      from sorted_wrt_last [OF sorted True] due fired show ?thesis by simp
    next
      case False
      from ne have "tCalls st = butlast (tCalls st) @ [last (tCalls st)]" by simp
      then have "set (tCalls st) = set (butlast (tCalls st)) \<union> {last (tCalls st)}"
        by (metis Un_insert_right list.simps(15) set_append sup_bot.right_neutral list.set(1))
      with that False have "x = last (tCalls st)" by simp
      with due fired show ?thesis by simp
    qed
    with fired sorted t show ?thesis by (simp add: runDue_single tInv_def)
  qed
qed

lemma tInv_tStep:
  assumes "tInv limit st" and "returns e"
  shows "tInv limit (tStep limit e st)"
proof (cases e)
  case (Called args d oc)
  with assms(2) have "oc = Returns" by (cases oc) simp_all
  with Called assms(1) show ?thesis by (simp only: tInv_called)
next
  case (Elapse d)
  with assms(1) show ?thesis by (simp only: tInv_elapse)
next
  case RunDue
  with assms(1) show ?thesis by (simp add: tInv_runDue)
qed

lemma tInv_tRun:
  assumes "funcReturns evs" and "tInv limit st"
  shows "tInv limit (tRun limit evs st)"
  using assms by (induction evs arbitrary: st) (simp_all add: funcReturns_def tInv_tStep)

lemma tCalls_runDue: "tCalls (runDue st) = tCalls st"
  by (simp add: runDue_def split: option.splits)

text \<open>
  Claim C3, amended.  Let every invocation of \<open>func\<close> so far have returned without
  calling the wrapper.  Then any two invocations of \<open>func\<close> began at least \<open>limit\<close>
  milliseconds apart.  At most one timer is pending, the one set when the last
  invocation returned, which comes due \<open>limit\<close> milliseconds after that invocation
  began or later.  A call that arrives while it is pending leaves the state as it is:
  the call is dropped, and so is every call that arrives less than \<open>limit\<close> milliseconds
  after the last invocation began.  A call that arrives when no timer is pending,
  because \<open>func\<close> has never been invoked or the event loop has run the callback,
  invokes \<open>func\<close> at once with its own arguments; when the timer is due, one turn of the
  event loop runs the callback.  Nothing is kept for later: neither the passing of
  time nor a turn of the event loop invokes \<open>func\<close>.
\<close>

theorem throttle_rate_limit:
  assumes "funcReturns evs" and "st = tRun limit evs newThrottle"
  shows "sorted_wrt (\<lambda>x y. fst x + limit \<le> fst y) (tCalls st)
    \<and> (timers (tLoop st) = []
        \<or> tCalls st \<noteq> []
          \<and> (\<exists>i due. timers (tLoop st) = [(i, due, ())] \<and> fst (last (tCalls st)) + limit \<le> due))
    \<and> (timers (tLoop st) \<noteq> [] \<longrightarrow> throttled limit args d oc st = Returned st)
    \<and> (tCalls st \<noteq> [] \<and> clock (tLoop st) < fst (last (tCalls st)) + limit
          \<longrightarrow> throttled limit args d oc st = Returned st)
    \<and> (timers (tLoop st) = [] \<longrightarrow>
          throttled limit args d Returns st =
            Returned (st\<lparr>tCalls := tCalls st @ [(clock (tLoop st), args)],
                         inThrottle := True,
                         tLoop := snd (setTimeout () limit (idle (clock (tLoop st) + d) (tLoop st)))\<rparr>))
    \<and> (tCalls st = [] \<longrightarrow> timers (tLoop st) = [])
    \<and> ((\<forall>t\<in>set (timers (tLoop st)). fst (snd t) \<le> clock (tLoop st))
          \<longrightarrow> timers (tLoop (tStep limit RunDue st)) = [])
    \<and> tCalls (tStep limit (Elapse d) st) = tCalls st
    \<and> tCalls (tStep limit RunDue st) = tCalls st"
proof -
  from assms have inv: "tInv limit st" by (simp add: tInv_tRun tInv_new)
  then have sorted: "sorted_wrt (\<lambda>x y. fst x + limit \<le> fst y) (tCalls st)"
    by (simp add: tInv_def)
  have flag: "inThrottle st \<longleftrightarrow> timers (tLoop st) \<noteq> []"
    using inv by (cases "inThrottle st") (auto simp: tInv_def)
  have timer: "timers (tLoop st) = []
        \<or> tCalls st \<noteq> []
          \<and> (\<exists>i due. timers (tLoop st) = [(i, due, ())] \<and> fst (last (tCalls st)) + limit \<le> due)"
    using inv by (cases "inThrottle st") (simp_all add: tInv_def)
  have pending: "timers (tLoop st) \<noteq> [] \<longrightarrow> throttled limit args d oc st = Returned st"
    using flag by (simp add: throttled_set)
  have early: "tCalls st \<noteq> [] \<and> clock (tLoop st) < fst (last (tCalls st)) + limit
          \<longrightarrow> throttled limit args d oc st = Returned st"
  proof
    assume a: "tCalls st \<noteq> [] \<and> clock (tLoop st) < fst (last (tCalls st)) + limit"
    have "inThrottle st"
    proof (rule ccontr)
      assume "\<not> inThrottle st"
      with inv have "\<forall>x\<in>set (tCalls st). fst x + limit \<le> clock (tLoop st)"
        by (simp add: tInv_def)
      moreover from a have "last (tCalls st) \<in> set (tCalls st)" by simp
      ultimately have "fst (last (tCalls st)) + limit \<le> clock (tLoop st)" by blast
      with a show False by simp
    qed
    then show "throttled limit args d oc st = Returned st" by (rule throttled_set)
  qed
  have free: "timers (tLoop st) = [] \<longrightarrow>
          throttled limit args d Returns st =
            Returned (st\<lparr>tCalls := tCalls st @ [(clock (tLoop st), args)],
                         inThrottle := True,
                         tLoop := snd (setTimeout () limit (idle (clock (tLoop st) + d) (tLoop st)))\<rparr>)"
    using flag by (simp add: throttled_unset)
  have never: "tCalls st = [] \<longrightarrow> timers (tLoop st) = []"
    using timer by blast
  have turn: "(\<forall>t\<in>set (timers (tLoop st)). fst (snd t) \<le> clock (tLoop st))
          \<longrightarrow> timers (tLoop (tStep limit RunDue st)) = []"
  proof
    assume a: "\<forall>t\<in>set (timers (tLoop st)). fst (snd t) \<le> clock (tLoop st)"
    from timer show "timers (tLoop (tStep limit RunDue st)) = []"
    proof
      assume "timers (tLoop st) = []"
      then show ?thesis by (simp add: runDue_none)
    next
      assume "tCalls st \<noteq> []
          \<and> (\<exists>i due. timers (tLoop st) = [(i, due, ())] \<and> fst (last (tCalls st)) + limit \<le> due)"
      then obtain i due where t: "timers (tLoop st) = [(i, due, ())]" by blast
      with a have "due \<le> clock (tLoop st)" by simp
      with t show ?thesis by (simp add: runDue_single)
    qed
  qed
  have e: "tCalls (tStep limit (Elapse d) st) = tCalls st" by simp
  have r: "tCalls (tStep limit RunDue st) = tCalls st" by (simp add: tCalls_runDue)
  from sorted timer pending early free never turn e r show ?thesis by (intro conjI)
qed

theorem throttle_rate_limit_witness:
  "funcReturns [Called (1::nat) 0 Returns, Elapse 30]
   \<and> timers (tLoop (tRun 50 [Called (1::nat) 0 Returns, Elapse 30] newThrottle)) \<noteq> []
   \<and> throttled 50 2 0 Returns (tRun 50 [Called (1::nat) 0 Returns, Elapse 30] newThrottle)
       = Returned (tRun 50 [Called (1::nat) 0 Returns, Elapse 30] newThrottle)
   \<and> funcReturns [Called (1::nat) 0 Returns, Elapse 30, Called 2 0 Returns, Elapse 50, RunDue,
                   Called 3 5 Returns, Elapse 60, Called 4 0 Returns, RunDue]
   \<and> timers (tLoop (tRun 50 [Called (1::nat) 0 Returns, Elapse 30, Called 2 0 Returns, Elapse 50, RunDue,
                             Called 3 5 Returns, Elapse 60, Called 4 0 Returns, RunDue] newThrottle)) = []
   \<and> sorted_wrt (\<lambda>x y. fst x + 50 \<le> fst y)
        (tCalls (tRun 50 [Called (1::nat) 0 Returns, Elapse 30, Called 2 0 Returns, Elapse 50, RunDue,
                          Called 3 5 Returns, Elapse 60, Called 4 0 Returns, RunDue] newThrottle))
   \<and> tCalls (tRun 50 [Called (1::nat) 0 Returns, Elapse 30, Called 2 0 Returns, Elapse 50, RunDue,
                      Called 3 5 Returns, Elapse 60, Called 4 0 Returns, RunDue] newThrottle)
       = [(0, 1), (80, 3)]
   \<and> tCalls (stateOf (throttled 50 5 0 Returns
        (tRun 50 [Called (1::nat) 0 Returns, Elapse 30, Called 2 0 Returns, Elapse 50, RunDue,
                  Called 3 5 Returns, Elapse 60, Called 4 0 Returns, RunDue] newThrottle)))
       = [(0, 1), (80, 3), (145, 5)]"
proof -
  define early :: "nat throttleState"
    where "early = tRun 50 [Called (1::nat) 0 Returns, Elapse 30] newThrottle"
  define late :: "nat throttleState"
    where "late = tRun 50 [Called (1::nat) 0 Returns, Elapse 30, Called 2 0 Returns, Elapse 50, RunDue,
                          Called 3 5 Returns, Elapse 60, Called 4 0 Returns, RunDue] newThrottle"
  have h1: "funcReturns [Called (1::nat) 0 Returns, Elapse 30]" by code_simp
  have h2: "funcReturns [Called (1::nat) 0 Returns, Elapse 30, Called 2 0 Returns, Elapse 50, RunDue,
                         Called 3 5 Returns, Elapse 60, Called 4 0 Returns, RunDue]" by code_simp
  have p: "timers (tLoop early) \<noteq> []" unfolding early_def by code_simp
  have f: "timers (tLoop late) = []" unfolding late_def by code_simp
  have c: "tCalls late = [(0, 1), (80, 3)]" unfolding late_def by code_simp
  have k: "clock (tLoop late) = 145" unfolding late_def by code_simp
  from throttle_rate_limit [OF h1 early_def, of 2 0 Returns] p
  have a: "throttled 50 2 0 Returns early = Returned early" by blast
  note run = throttle_rate_limit [OF h2 late_def, of 5 0 Returns]
  from run have s: "sorted_wrt (\<lambda>x y. fst x + 50 \<le> fst y) (tCalls late)"
    by (rule conjunct1)
  from run f have "throttled 50 5 0 Returns late =
            Returned (late\<lparr>tCalls := tCalls late @ [(clock (tLoop late), 5)],
                           inThrottle := True,
                           tLoop := snd (setTimeout () 50 (idle (clock (tLoop late) + 0) (tLoop late)))\<rparr>)"
    by blast
  with c k have i: "tCalls (stateOf (throttled 50 5 0 Returns late)) = [(0, 1), (80, 3), (145, 5)]"
    by simp
  from h1 p a h2 f s c i show ?thesis unfolding early_def late_def by (intro conjI)
qed

text \<open>
  As the claim is stated it fails in three ways, with \<open>limit\<close> 50.  \<open>func\<close> is invoked
  at 0 and other code keeps the event loop busy for 80 milliseconds: the callback has
  not run, so a call at 80 is dropped although the last invocation is 80 milliseconds
  old.  \<open>func\<close> throws when it is invoked at 0: the flag is not set, and a call at 10
  invokes \<open>func\<close> again.  \<open>func\<close> calls the wrapper while it runs: the flag is not set
  yet, and \<open>func\<close> is invoked twice at 0.
\<close>

theorem throttle_rate_limit_counterexample:
  "tCalls (tRun 50 [Called (1::nat) 0 Returns, Elapse 80] newThrottle) = [(0, 1)]
   \<and> clock (tLoop (tRun 50 [Called (1::nat) 0 Returns, Elapse 80] newThrottle)) = 80
   \<and> throttled 50 2 0 Returns (tRun 50 [Called (1::nat) 0 Returns, Elapse 80] newThrottle)
       = Returned (tRun 50 [Called (1::nat) 0 Returns, Elapse 80] newThrottle)
   \<and> tCalls (tRun 50 [Called (1::nat) 0 Throws, Elapse 10, Called 2 0 Returns] newThrottle)
       = [(0, 1), (10, 2)]
   \<and> tCalls (tRun 50 [Called (1::nat) 0 (Reenters 2)] newThrottle) = [(0, 1), (0, 2)]"
proof (intro conjI)
  show "tCalls (tRun 50 [Called (1::nat) 0 Returns, Elapse 80] newThrottle) = [(0, 1)]"
    by code_simp
  show "clock (tLoop (tRun 50 [Called (1::nat) 0 Returns, Elapse 80] newThrottle)) = 80"
    by code_simp
  show "throttled 50 2 0 Returns (tRun 50 [Called (1::nat) 0 Returns, Elapse 80] newThrottle)
       = Returned (tRun 50 [Called (1::nat) 0 Returns, Elapse 80] newThrottle)"
    by code_simp
  show "tCalls (tRun 50 [Called (1::nat) 0 Throws, Elapse 10, Called 2 0 Returns] newThrottle)
       = [(0, 1), (10, 2)]"
    by code_simp
  show "tCalls (tRun 50 [Called (1::nat) 0 (Reenters 2)] newThrottle) = [(0, 1), (0, 2)]"
    by code_simp
qed

section \<open>Auto-save and local storage\<close>

text \<open>
  \<open>localStorage\<close> is a store of string values under string keys with a quota on its
  size.  \<open>setItem\<close> replaces the value of the key and throws \<open>QuotaExceededError\<close> when
  the store would grow beyond the quota; the size of the store is counted here as the
  number of code units of its keys and values.
\<close>

datatype storageError = QuotaExceededError

record localStore =
  entries :: "(jsstring \<times> jsstring) list"
  quota :: nat

definition storeSize :: "(jsstring \<times> jsstring) list \<Rightarrow> nat" where
  "storeSize es = sum_list (map (\<lambda>(k, v). length k + length v) es)"

definition getItem :: "localStore \<Rightarrow> jsstring \<Rightarrow> jsstring option" where
  "getItem ls k = map_of (entries ls) k"

definition setItem :: "localStore \<Rightarrow> jsstring \<Rightarrow> jsstring \<Rightarrow> storageError + localStore" where
  "setItem ls k v =
     (let es = (k, v) # filter (\<lambda>e. fst e \<noteq> k) (entries ls)
      in if storeSize es \<le> quota ls then Inr (ls\<lparr>entries := es\<rparr>) else Inl QuotaExceededError)"

text \<open>
  \<open>pendingSaveData[key] = value\<close> on an object whose properties are kept in the order
  in which they were first set.
\<close>

fun objSet :: "jsstring \<Rightarrow> jsstring \<Rightarrow> (jsstring \<times> jsstring) list \<Rightarrow> (jsstring \<times> jsstring) list" where
  "objSet k v [] = [(k, v)]"
| "objSet k v ((k', v') # es) = (if k' = k then (k, v) # es else (k', v') # objSet k v es)"

text \<open>\<open>String(n)\<close> for a non-negative integer: its decimal digits.\<close>

function decimal :: "nat \<Rightarrow> jsstring" where
  "decimal n = (if n < 10 then [0x30 + of_nat n] else decimal (n div 10) @ [0x30 + of_nat (n mod 10)])"
  by pat_completeness auto
termination
  by (relation "measure id") auto

declare decimal.simps [simp del]

text \<open>
  The state of the page that saving and loading touch.  \<open>placeholder\<close> is
  \<open>editor.placeholder\<close>, set in the HTML.  \<open>preview\<close> holds the text whose rendering by
  \<open>marked.parse\<close> is shown, \<open>None\<close> for an empty preview.  \<open>Date.now()\<close> is the clock of
  the event loop.  The only timer callback is \<open>flushSaveData\<close>.  The status line is
  reduced to whether \<open>showAutoSaveStatus('saved')\<close> was called last, and
  \<open>console.error\<close> to a count.
\<close>

record saveState =
  editor :: jsstring
  placeholder :: jsstring
  preview :: "jsstring option"
  localStorage :: localStore
  pendingSaveData :: "(jsstring \<times> jsstring) list"
  saveTimeout :: "nat option"
  sLoop :: "unit eventLoop"
  savedShown :: bool
  consoleErrors :: nat

definition autoSaveInterval :: nat where
  "autoSaveInterval = 3000"

definition queueSaveData :: "jsstring \<Rightarrow> jsstring \<Rightarrow> saveState \<Rightarrow> saveState" where
  "queueSaveData key val st =
     (let el = (case saveTimeout st of
                  None \<Rightarrow> sLoop st
                | Some h \<Rightarrow> if h \<noteq> 0 then clearTimeout (Some h) (sLoop st) else sLoop st);
          (h', el') = setTimeout () autoSaveInterval el
      in st\<lparr>pendingSaveData := objSet key val (pendingSaveData st),
             sLoop := el', saveTimeout := Some h'\<rparr>)"

definition saveToLocalStorage :: "saveState \<Rightarrow> saveState" where
  "saveToLocalStorage st =
     (let st1 = queueSaveData (js ''editorContent'') (editor st) st
      in queueSaveData (js ''editorLastSave'') (decimal (clock (sLoop st1))) st1)"

text \<open>
  The \<open>forEach\<close> of \<open>flushSaveData\<close>: the entries are written in order; the first
  \<open>setItem\<close> that throws ends the loop, and what was written before stays written.
\<close>

fun writeAll :: "(jsstring \<times> jsstring) list \<Rightarrow> localStore \<Rightarrow> localStore \<times> storageError option" where
  "writeAll [] ls = (ls, None)"
| "writeAll ((k, v) # es) ls =
     (case setItem ls k v of
        Inl e \<Rightarrow> (ls, Some e)
      | Inr ls' \<Rightarrow> writeAll es ls')"

definition flushSaveData :: "saveState \<Rightarrow> saveState" where
  "flushSaveData st =
     (if length (pendingSaveData st) = 0 then st
      else case writeAll (pendingSaveData st) (localStorage st) of
             (ls, None) \<Rightarrow> st\<lparr>localStorage := ls, pendingSaveData := [], savedShown := True\<rparr>
           | (ls, Some e) \<Rightarrow> st\<lparr>localStorage := ls, consoleErrors := Suc (consoleErrors st)\<rparr>)"

text \<open>
  \<open>loadFromLocalStorage\<close>.  A string is truthy when it is not empty.  The \<open>setItem\<close>
  of the first visit is outside any \<open>try\<close>, so its exception ends the function.
\<close>

definition loadFromLocalStorage :: "saveState \<Rightarrow> storageError + saveState" where
  "loadFromLocalStorage st =
     (let savedContent = getItem (localStorage st) (js ''editorContent'');
          hasVisited = getItem (localStorage st) (js ''hasVisited'')
      in case savedContent of
           Some c \<Rightarrow>
             if c \<noteq> [] \<and> trim c \<noteq> []
             then Inr (st\<lparr>editor := c, preview := Some c, savedShown := True\<rparr>)
             else if hasVisited = None \<or> hasVisited = Some []
             then (case setItem (localStorage st) (js ''hasVisited'') (js ''true'') of
                     Inl e \<Rightarrow> Inl e
                   | Inr ls \<Rightarrow>
                       Inr (st\<lparr>editor := placeholder st, preview := Some (placeholder st),
                               localStorage := ls\<rparr>))
             else Inr (st\<lparr>editor := [], preview := None\<rparr>)
         | None \<Rightarrow>
             if hasVisited = None \<or> hasVisited = Some []
             then (case setItem (localStorage st) (js ''hasVisited'') (js ''true'') of
                     Inl e \<Rightarrow> Inl e
                   | Inr ls \<Rightarrow>
                       Inr (st\<lparr>editor := placeholder st, preview := Some (placeholder st),
                               localStorage := ls\<rparr>))
             else Inr (st\<lparr>editor := [], preview := None\<rparr>))"

definition freshPage :: "jsstring \<Rightarrow> jsstring \<Rightarrow> localStore \<Rightarrow> saveState" where
  "freshPage content ph ls =
     \<lparr>editor = content, placeholder = ph, preview = None, localStorage = ls,
      pendingSaveData = [], saveTimeout = None, sLoop = newEventLoop,
      savedShown = False, consoleErrors = 0\<rparr>"

lemma map_of_filter_other:
  "k' \<noteq> k \<Longrightarrow> map_of (filter (\<lambda>e. fst e \<noteq> k) es) k' = map_of es k'"
  by (induction es) auto

lemma setItem_Inr:
  assumes "setItem ls k v = Inr ls'"
  shows "ls' = ls\<lparr>entries := (k, v) # filter (\<lambda>e. fst e \<noteq> k) (entries ls)\<rparr>"
  using assms by (simp add: setItem_def Let_def split: if_splits)

lemma writeAll_stored:
  assumes "writeAll es ls = (ls', None)" and "distinct (map fst es)"
  shows "(\<forall>k v. (k, v) \<in> set es \<longrightarrow> getItem ls' k = Some v)
           \<and> (\<forall>k. k \<notin> fst ` set es \<longrightarrow> getItem ls' k = getItem ls k)"
  using assms
proof (induction es arbitrary: ls)
  case Nil
  then show ?case by simp
next
  case (Cons e es)
  obtain k v where e: "e = (k, v)" by (cases e)
  let ?ls1 = "ls\<lparr>entries := (k, v) # filter (\<lambda>e. fst e \<noteq> k) (entries ls)\<rparr>"
  from Cons.prems(1) e have s1: "setItem ls k v = Inr ?ls1" and w: "writeAll es ?ls1 = (ls', None)"
    by (auto split: sum.splits dest: setItem_Inr)
  from Cons.prems(2) e have d: "distinct (map fst es)" and knew: "k \<notin> fst ` set es" by auto
  from Cons.IH [OF w d] have
    got: "\<forall>k v. (k, v) \<in> set es \<longrightarrow> getItem ls' k = Some v"
    and kept: "\<forall>k. k \<notin> fst ` set es \<longrightarrow> getItem ls' k = getItem ?ls1 k"
    by auto
  from knew kept have k1: "getItem ls' k = Some v" by (simp add: getItem_def)
  have "\<forall>k' v'. (k', v') \<in> set (e # es) \<longrightarrow> getItem ls' k' = Some v'"
    using e got k1 by auto
  moreover have "\<forall>k'. k' \<notin> fst ` set (e # es) \<longrightarrow> getItem ls' k' = getItem ls k'"
  proof (intro allI impI)
    fix k' assume a: "k' \<notin> fst ` set (e # es)"
    with e have ne: "k' \<noteq> k" and "k' \<notin> fst ` set es" by auto
    with kept have "getItem ls' k' = getItem ?ls1 k'" by blast
    also from ne have "\<dots> = map_of (filter (\<lambda>e. fst e \<noteq> k) (entries ls)) k'"
      by (simp add: getItem_def)
    also from ne have "\<dots> = getItem ls k'"
      by (simp add: getItem_def map_of_filter_other)
    finally show "getItem ls' k' = getItem ls k'" .
  qed
  ultimately show ?case by blast
qed

lemma objSet_map_fst:
  "map fst (objSet k v es) = (if k \<in> set (map fst es) then map fst es else map fst es @ [k])"
proof (induction es)
  case Nil
  show ?case by simp
next
  case (Cons e es)
  obtain k' v' where e: "e = (k', v')" by (cases e)
  show ?case
  proof (cases "k' = k")
    case True
    with e show ?thesis by simp
  next
    case False
    with e Cons.IH show ?thesis by (cases "k \<in> set (map fst es)") simp_all
  qed
qed

lemma objSet_distinct: "distinct (map fst es) \<Longrightarrow> distinct (map fst (objSet k v es))"
  unfolding objSet_map_fst by simp

lemma objSet_mem: "distinct (map fst es) \<Longrightarrow> (k, v) \<in> set (objSet k v es)"
  by (induction es) auto

lemma objSet_other:
  "k' \<noteq> k \<Longrightarrow> (k', v') \<in> set es \<Longrightarrow> (k', v') \<in> set (objSet k v es)"
  by (induction es) auto

lemma key_names: "js ''editorLastSave'' \<noteq> js ''editorContent''"
  by (simp add: js_def)

lemma saveToLocalStorage_pending:
  "pendingSaveData (saveToLocalStorage st) =
     objSet (js ''editorLastSave'') (decimal (clock (sLoop st)))
       (objSet (js ''editorContent'') (editor st) (pendingSaveData st))"
  and saveToLocalStorage_store: "localStorage (saveToLocalStorage st) = localStorage st"
  by (simp_all add: saveToLocalStorage_def queueSaveData_def Let_def setTimeout_def
      clearTimeout_def split: option.splits prod.splits)

lemma nonblank_trim:
  assumes "\<exists>c\<in>set s. \<not> isWhiteSpace c"
  shows "trim s \<noteq> []"
proof -
  from assms have "dropWhile isWhiteSpace s \<noteq> []" by (auto simp: dropWhile_eq_Nil_conv)
  moreover have "set (dropWhile isWhiteSpace s) \<subseteq> set s" by (rule set_dropWhileD [THEN subsetI])
  ultimately have "\<exists>c\<in>set (rev (dropWhile isWhiteSpace s)). \<not> isWhiteSpace c"
    by (metis hd_dropWhile hd_in_set set_rev)
  then show ?thesis by (auto simp: trim_def dropWhile_eq_Nil_conv)
qed

lemma flushSaveData_stored:
  assumes obj: "distinct (map fst (pendingSaveData st))"
    and noThrow: "snd (writeAll (pendingSaveData st) (localStorage st)) = None"
    and mem: "(k, v) \<in> set (pendingSaveData st)"
  shows "getItem (localStorage (flushSaveData st)) k = Some v"
    and "pendingSaveData (flushSaveData st) = []"
proof -
  obtain ls' where w: "writeAll (pendingSaveData st) (localStorage st) = (ls', None)"
    using noThrow by (cases "writeAll (pendingSaveData st) (localStorage st)") simp
  from writeAll_stored [OF w obj] mem have got: "getItem ls' k = Some v" by blast
  from mem have ne: "pendingSaveData st \<noteq> []" by auto
  with w have f: "flushSaveData st = st\<lparr>localStorage := ls', pendingSaveData := [], savedShown := True\<rparr>"
    by (simp add: flushSaveData_def)
  from f got show "getItem (localStorage (flushSaveData st)) k = Some v" by simp
  from f show "pendingSaveData (flushSaveData st) = []" by simp
qed

lemma loadFromLocalStorage_saved:
  assumes "getItem (localStorage page) (js ''editorContent'') = Some c" and "trim c \<noteq> []"
  shows "loadFromLocalStorage page = Inr (page\<lparr>editor := c, preview := Some c, savedShown := True\<rparr>)"
proof -
  from assms(2) have "c \<noteq> []" by (auto simp: trim_def)
  with assms show ?thesis by (simp add: loadFromLocalStorage_def Let_def)
qed

text \<open>
  Claim C1, amended.  Let the editor hold a text with at least one code unit that is
  not white space, let \<open>pendingSaveData\<close> be an object (its keys are distinct), and let
  no \<open>setItem\<close> throw when what is pending after \<open>saveToLocalStorage\<close> is written to
  \<open>localStorage\<close>.  Then \<open>saveToLocalStorage\<close> followed by \<open>flushSaveData\<close> stores
  exactly that text under the key \<open>editorContent\<close>, and \<open>loadFromLocalStorage\<close> on a
  page with this store completes and sets \<open>editor.value\<close> to exactly that text.  The
  example is a store filled to its quota that already holds both keys, with another
  text of the same length: the values are replaced and no write fails.
\<close>

theorem save_load_roundtrip:
  assumes nonblank: "\<exists>c\<in>set (editor st). \<not> isWhiteSpace c"
    and obj: "distinct (map fst (pendingSaveData st))"
    and noThrow: "snd (writeAll (pendingSaveData (saveToLocalStorage st)) (localStorage st)) = None"
    and reload: "localStorage page = localStorage (flushSaveData (saveToLocalStorage st))"
  shows "getItem (localStorage (flushSaveData (saveToLocalStorage st))) (js ''editorContent'')
           = Some (editor st)
         \<and> (\<exists>page'. loadFromLocalStorage page = Inr page' \<and> editor page' = editor st)"
proof -
  let ?st1 = "saveToLocalStorage st"
  have d: "distinct (map fst (pendingSaveData ?st1))"
    unfolding saveToLocalStorage_pending by (intro objSet_distinct obj)
  have m0: "(js ''editorContent'', editor st)
          \<in> set (objSet (js ''editorContent'') (editor st) (pendingSaveData st))"
    using obj by (rule objSet_mem)
  from key_names have "js ''editorContent'' \<noteq> js ''editorLastSave''" by (rule not_sym)
  from objSet_other [OF this m0]
  have m: "(js ''editorContent'', editor st) \<in> set (pendingSaveData ?st1)"
    unfolding saveToLocalStorage_pending .
  from noThrow have noThrow': "snd (writeAll (pendingSaveData ?st1) (localStorage ?st1)) = None"
    by (simp add: saveToLocalStorage_store)
  from flushSaveData_stored(1) [OF d noThrow' m]
  have stored: "getItem (localStorage (flushSaveData ?st1)) (js ''editorContent'') = Some (editor st)" .
  with reload have "getItem (localStorage page) (js ''editorContent'') = Some (editor st)" by simp
  from loadFromLocalStorage_saved [OF this nonblank_trim [OF nonblank]] stored
  show ?thesis by simp
qed

theorem save_load_roundtrip_witness:
  "(\<exists>c\<in>set (editor (freshPage (js ''# hi'') (js ''intro'')
        \<lparr>entries = [(js ''editorContent'', js ''# ho''), (js ''editorLastSave'', js ''0'')], quota = 32\<rparr>)).
      \<not> isWhiteSpace c)
   \<and> distinct (map fst (pendingSaveData (freshPage (js ''# hi'') (js ''intro'')
        \<lparr>entries = [(js ''editorContent'', js ''# ho''), (js ''editorLastSave'', js ''0'')], quota = 32\<rparr>)))
   \<and> snd (writeAll
        (pendingSaveData (saveToLocalStorage (freshPage (js ''# hi'') (js ''intro'')
           \<lparr>entries = [(js ''editorContent'', js ''# ho''), (js ''editorLastSave'', js ''0'')], quota = 32\<rparr>)))
        (localStorage (freshPage (js ''# hi'') (js ''intro'')
           \<lparr>entries = [(js ''editorContent'', js ''# ho''), (js ''editorLastSave'', js ''0'')], quota = 32\<rparr>)))
       = None
   \<and> storeSize [(js ''editorContent'', js ''# ho''), (js ''editorLastSave'', js ''0'')] = 32
   \<and> getItem (localStorage (flushSaveData (saveToLocalStorage
         (freshPage (js ''# hi'') (js ''intro'')
            \<lparr>entries = [(js ''editorContent'', js ''# ho''), (js ''editorLastSave'', js ''0'')], quota = 32\<rparr>))))
       (js ''editorContent'') = Some (js ''# hi'')
   \<and> (\<exists>page'. loadFromLocalStorage
         (freshPage [] (js ''intro'')
            (localStorage (flushSaveData (saveToLocalStorage
               (freshPage (js ''# hi'') (js ''intro'')
                  \<lparr>entries = [(js ''editorContent'', js ''# ho''), (js ''editorLastSave'', js ''0'')],
                   quota = 32\<rparr>)))))
         = Inr page' \<and> editor page' = js ''# hi'')"
proof -
  let ?ls = "\<lparr>entries = [(js ''editorContent'', js ''# ho''), (js ''editorLastSave'', js ''0'')], quota = 32\<rparr>"
  let ?st = "freshPage (js ''# hi'') (js ''intro'') ?ls"
  let ?page = "freshPage [] (js ''intro'') (localStorage (flushSaveData (saveToLocalStorage ?st)))"
  have e: "editor ?st = js ''# hi''" by (simp add: freshPage_def)
  have h1: "\<exists>c\<in>set (editor ?st). \<not> isWhiteSpace c" by code_simp
  have h2: "distinct (map fst (pendingSaveData ?st))" by (simp add: freshPage_def)
  have h3: "snd (writeAll (pendingSaveData (saveToLocalStorage ?st)) (localStorage ?st)) = None"
    by code_simp
  have h4: "localStorage ?page = localStorage (flushSaveData (saveToLocalStorage ?st))"
    by (simp add: freshPage_def)
  have full: "storeSize [(js ''editorContent'', js ''# ho''), (js ''editorLastSave'', js ''0'')] = 32"
    by code_simp
  from save_load_roundtrip [OF h1 h2 h3 h4] h1 h2 h3 full show ?thesis unfolding e by blast
qed

text \<open>
  As the claim is stated, for every text with a code unit that is not white space, it
  fails: in a store without room (quota 0, as some browsers give in private mode)
  \<open>setItem\<close> throws, \<open>flushSaveData\<close> catches the exception and logs it, and nothing
  is stored under \<open>editorContent\<close>.
\<close>

theorem save_load_roundtrip_counterexample:
  "\<not> (\<forall>st. (\<exists>c\<in>set (editor st). \<not> isWhiteSpace c) \<longrightarrow>
         getItem (localStorage (flushSaveData (saveToLocalStorage st))) (js ''editorContent'')
           = Some (editor st))"
proof
  assume a: "\<forall>st. (\<exists>c\<in>set (editor st). \<not> isWhiteSpace c) \<longrightarrow>
         getItem (localStorage (flushSaveData (saveToLocalStorage st))) (js ''editorContent'')
           = Some (editor st)"
  let ?st = "freshPage (js ''# hi'') (js ''intro'') \<lparr>entries = [], quota = 0\<rparr>"
  have "\<exists>c\<in>set (editor ?st). \<not> isWhiteSpace c" by code_simp
  with a have "getItem (localStorage (flushSaveData (saveToLocalStorage ?st))) (js ''editorContent'')
           = Some (editor ?st)" by blast
  moreover have "getItem (localStorage (flushSaveData (saveToLocalStorage ?st))) (js ''editorContent'')
           = None" by code_simp
  ultimately show False by simp
qed

section \<open>Calculator\<close>

text \<open>
  The numbers of the calculator are IEEE doubles.  Their operations are taken as
  parameters: \<open>parseFloat\<close>, \<open>String\<close> on a number, the four arithmetic operations and
  the test \<open>x === 0\<close> (true for both zeros, false for \<open>NaN\<close>).
\<close>

record 'n numberOps =
  parseFloat :: "jsstring \<Rightarrow> 'n"
  numberToString :: "'n \<Rightarrow> jsstring"
  numAdd :: "'n \<Rightarrow> 'n \<Rightarrow> 'n"
  numSub :: "'n \<Rightarrow> 'n \<Rightarrow> 'n"
  numMul :: "'n \<Rightarrow> 'n \<Rightarrow> 'n"
  numDiv :: "'n \<Rightarrow> 'n \<Rightarrow> 'n"
  isZero :: "'n \<Rightarrow> bool"

record calcState =
  currentValue :: jsstring
  previousValue :: jsstring
  operator :: jsstring
  shouldResetDisplay :: bool

text \<open>
  The variable \<open>result\<close> of \<open>calculate\<close>: a number, the string \<open>'Error'\<close>, or
  \<open>undefined\<close> when no case of the \<open>switch\<close> applies.
\<close>

datatype 'n calcResult = ResultNumber 'n | ResultString jsstring | ResultUndefined

definition resultToString :: "'n numberOps \<Rightarrow> 'n calcResult \<Rightarrow> jsstring" where
  "resultToString ops res =
     (case res of
        ResultNumber x \<Rightarrow> numberToString ops x
      | ResultString s \<Rightarrow> s
      | ResultUndefined \<Rightarrow> js ''undefined'')"

definition calculate :: "'n numberOps \<Rightarrow> calcState \<Rightarrow> calcState" where
  "calculate ops st =
     (let prev = parseFloat ops (previousValue st);
          current = parseFloat ops (currentValue st);
          res = (if operator st = js ''add'' then ResultNumber (numAdd ops prev current)
                 else if operator st = js ''subtract'' then ResultNumber (numSub ops prev current)
                 else if operator st = js ''multiply'' then ResultNumber (numMul ops prev current)
                 else if operator st = js ''divide'' then
                   (if \<not> isZero ops current then ResultNumber (numDiv ops prev current)
                    else ResultString (js ''Error''))
                 else ResultUndefined)
      in st\<lparr>currentValue := resultToString ops res, shouldResetDisplay := True\<rparr>)"

lemma operator_names:
  "js ''divide'' \<noteq> js ''add''" "js ''divide'' \<noteq> js ''subtract''" "js ''divide'' \<noteq> js ''multiply''"
  by (simp_all add: js_def)

text \<open>
  Claim C9.  When \<open>calculate\<close> runs with the operator \<open>divide\<close>: if the current value
  parses to zero, \<open>currentValue\<close> becomes the string \<open>Error\<close> and no division is made;
  otherwise it becomes the string form of the quotient of the parsed previous and
  current values.
\<close>

theorem calculate_divide:
  "currentValue (calculate ops (st\<lparr>operator := js ''divide''\<rparr>)) =
     (if isZero ops (parseFloat ops (currentValue st)) then js ''Error''
      else numberToString ops
             (numDiv ops (parseFloat ops (previousValue st)) (parseFloat ops (currentValue st))))"
  by (simp add: calculate_def Let_def resultToString_def operator_names)

section \<open>Password generator\<close>

definition uppercaseChars :: jsstring where
  "uppercaseChars = js ''ABCDEFGHIJKLMNOPQRSTUVWXYZ''"

definition lowercaseChars :: jsstring where
  "lowercaseChars = js ''abcdefghijklmnopqrstuvwxyz''"

definition numberChars :: jsstring where
  "numberChars = js ''0123456789''"

definition symbolChars :: jsstring where
  "symbolChars = js ''!@#$%^&*()_+-=[]{}|;:,.<>?''"

text \<open>The message shown when no character type is checked (eleven code units).\<close>

definition noTypeMessage :: jsstring where
  "noTypeMessage =
     [0x8BF7, 0x81F3, 0x5C11, 0x9009, 0x62E9, 0x4E00, 0x79CD, 0x5B57, 0x7B26, 0x7C7B, 0x578B]"

text \<open>\<open>s.charAt(k)\<close>: the empty string when \<open>k\<close> is out of range.\<close>

definition charAt :: "jsstring \<Rightarrow> int \<Rightarrow> jsstring" where
  "charAt s k = (if 0 \<le> k \<and> k < int (length s) then [s ! nat k] else [])"

text \<open>
  The \<open>for\<close> loop.  \<open>rnd i\<close> is the value of the call of \<open>Math.random()\<close> in round
  \<open>i\<close>; the product and \<open>Math.floor\<close> are taken on rationals.
\<close>

function passwordLoop :: "jsstring \<Rightarrow> int \<Rightarrow> (nat \<Rightarrow> rat) \<Rightarrow> nat \<Rightarrow> jsstring \<Rightarrow> jsstring" where
  "passwordLoop chars len rnd i password =
     (if int i < len
      then passwordLoop chars len rnd (Suc i)
             (password @ charAt chars \<lfloor>rnd i * of_nat (length chars)\<rfloor>)
      else password)"
  by pat_completeness auto
termination
  by (relation "measure (\<lambda>(chars, len, rnd, i, password). nat (len - int i))") auto

declare passwordLoop.simps [simp del]

text \<open>
  \<open>generatePassword\<close>, from the parsed length (\<open>None\<close> is \<open>NaN\<close>) and the four check
  boxes to the value put into \<open>passwordOutput\<close>.
\<close>

definition generatePassword ::
  "int option \<Rightarrow> bool \<Rightarrow> bool \<Rightarrow> bool \<Rightarrow> bool \<Rightarrow> (nat \<Rightarrow> rat) \<Rightarrow> jsstring" where
  "generatePassword len uppercase lowercase numbers symbols rnd =
     (let chars = (if uppercase then uppercaseChars else [])
                  @ (if lowercase then lowercaseChars else [])
                  @ (if numbers then numberChars else [])
                  @ (if symbols then symbolChars else [])
      in if chars = [] then noTypeMessage
         else case len of
                None \<Rightarrow> []
              | Some n \<Rightarrow> passwordLoop chars n rnd 0 [])"

definition selectedChars :: "bool \<Rightarrow> bool \<Rightarrow> bool \<Rightarrow> bool \<Rightarrow> jschar set" where
  "selectedChars uppercase lowercase numbers symbols =
     (if uppercase then set uppercaseChars else {})
     \<union> (if lowercase then set lowercaseChars else {})
     \<union> (if numbers then set numberChars else {})
     \<union> (if symbols then set symbolChars else {})"

lemma charAt_random:
  assumes "chars \<noteq> []" and "0 \<le> x" and "x < 1"
  shows "\<exists>c\<in>set chars. charAt chars \<lfloor>x * of_nat (length chars)\<rfloor> = [c]"
proof -
  let ?L = "length chars"
  let ?k = "\<lfloor>x * of_nat ?L\<rfloor>"
  from assms(1) have pos: "(0::rat) < of_nat ?L" by simp
  from assms(2) have "0 \<le> x * of_nat ?L" by simp
  then have k0: "0 \<le> ?k" by simp
  from assms(3) pos have "x * of_nat ?L < of_nat ?L" by simp
  then have "x * of_nat ?L < of_int (int ?L)" by simp
  then have k1: "?k < int ?L" by (simp only: floor_less_iff)
  from k0 k1 have "nat ?k < ?L" by linarith
  then have "chars ! nat ?k \<in> set chars" by simp
  moreover from k0 k1 have "charAt chars ?k = [chars ! nat ?k]" by (simp add: charAt_def)
  ultimately show ?thesis by blast
qed

lemma passwordLoop_spec:
  assumes "chars \<noteq> []" and "\<forall>i. 0 \<le> rnd i \<and> rnd i < 1"
  shows "length (passwordLoop chars len rnd i password) = length password + nat (len - int i)
         \<and> set (passwordLoop chars len rnd i password) \<subseteq> set password \<union> set chars"
  using assms
proof (induction chars len rnd i password rule: passwordLoop.induct)
  case (1 chars len rnd i password)
  show ?case
  proof (cases "int i < len")
    case False
    then show ?thesis by (subst (1 2) passwordLoop.simps) simp
  next
    case True
    from "1.prems" have "0 \<le> rnd i" "rnd i < 1" by simp_all
    from charAt_random [OF "1.prems"(1) this] obtain c where
      c: "c \<in> set chars" "charAt chars \<lfloor>rnd i * of_nat (length chars)\<rfloor> = [c]" by blast
    from "1.IH" [OF True "1.prems"] c True show ?thesis
      by (subst (1 2) passwordLoop.simps) (auto simp: nat_diff_distrib)
  qed
qed

lemma charset_nonempty:
  "uppercaseChars \<noteq> []" "lowercaseChars \<noteq> []" "numberChars \<noteq> []" "symbolChars \<noteq> []"
  by (simp_all add: uppercaseChars_def lowercaseChars_def numberChars_def symbolChars_def js_def)

text \<open>
  Claim C10.  For a requested length \<open>n\<close> that is not negative, with at least one
  character type checked and every value of \<open>Math.random()\<close> in the interval from 0
  (included) to 1 (excluded), the password has exactly \<open>n\<close> code units and each of
  them belongs to one of the checked character sets.  With no type checked the output
  is the fixed message, whatever the length.
\<close>

theorem generatePassword_spec:
  "(0 \<le> n \<and> (\<forall>i. 0 \<le> rnd i \<and> rnd i < 1) \<and> (uppercase \<or> lowercase \<or> numbers \<or> symbols)
      \<longrightarrow> int (length (generatePassword (Some n) uppercase lowercase numbers symbols rnd)) = n
          \<and> set (generatePassword (Some n) uppercase lowercase numbers symbols rnd)
                \<subseteq> selectedChars uppercase lowercase numbers symbols)
   \<and> generatePassword len False False False False rnd = noTypeMessage"
proof (intro conjI impI)
  assume a: "0 \<le> n \<and> (\<forall>i. 0 \<le> rnd i \<and> rnd i < 1) \<and> (uppercase \<or> lowercase \<or> numbers \<or> symbols)"
  let ?chars = "(if uppercase then uppercaseChars else [])
                  @ (if lowercase then lowercaseChars else [])
                  @ (if numbers then numberChars else [])
                  @ (if symbols then symbolChars else [])"
  from a have ne: "?chars \<noteq> []" using charset_nonempty by auto
  from a have r: "\<forall>i. 0 \<le> rnd i \<and> rnd i < 1" by simp
  have g: "generatePassword (Some n) uppercase lowercase numbers symbols rnd
             = passwordLoop ?chars n rnd 0 []"
    unfolding generatePassword_def Let_def by (simp only: ne if_False option.case)
  have s: "set ?chars = selectedChars uppercase lowercase numbers symbols"
    by (auto simp: selectedChars_def)
  from passwordLoop_spec [OF ne r, of n 0 "[]"] a
  show "int (length (generatePassword (Some n) uppercase lowercase numbers symbols rnd)) = n"
    and "set (generatePassword (Some n) uppercase lowercase numbers symbols rnd)
                \<subseteq> selectedChars uppercase lowercase numbers symbols"
    unfolding g s by simp_all
next
  show "generatePassword len False False False False rnd = noTypeMessage"
    by (simp add: generatePassword_def)
qed

theorem generatePassword_spec_witness:
  "(0::int) \<le> 12
   \<and> (\<forall>i. 0 \<le> (of_nat (i * 37 mod 101) / 101 :: rat) \<and> (of_nat (i * 37 mod 101) / 101 :: rat) < 1)
   \<and> int (length (generatePassword (Some 12) True False True True (\<lambda>i. of_nat (i * 37 mod 101) / 101))) = 12
   \<and> set (generatePassword (Some 12) True False True True (\<lambda>i. of_nat (i * 37 mod 101) / 101))
        \<subseteq> selectedChars True False True True
   \<and> generatePassword (Some 12) True False True True (\<lambda>i. of_nat (i * 37 mod 101) / 101)
        = js ''AW)G2]M8,S^B''
   \<and> generatePassword (Some 12) False False False False (\<lambda>i. of_nat (i * 37 mod 101) / 101)
        = noTypeMessage"
proof -
  let ?rnd = "\<lambda>i::nat. (of_nat (i * 37 mod 101) / 101 :: rat)"
  have r: "\<forall>i. 0 \<le> ?rnd i \<and> ?rnd i < 1"
  proof
    fix i :: nat
    have "i * 37 mod 101 < 101" by simp
    then have "(of_nat (i * 37 mod 101) :: rat) < 101" by (simp only: of_nat_less_numeral_iff)
    then show "0 \<le> ?rnd i \<and> ?rnd i < 1" by simp
  qed
  have h: "(0::int) \<le> 12 \<and> (\<forall>i. 0 \<le> ?rnd i \<and> ?rnd i < 1) \<and> (True \<or> False \<or> True \<or> True)"
    using r by simp
  from generatePassword_spec [of 12 ?rnd True False True True "Some 12"] h
  have "int (length (generatePassword (Some 12) True False True True ?rnd)) = 12"
    and "set (generatePassword (Some 12) True False True True ?rnd) \<subseteq> selectedChars True False True True"
    and "generatePassword (Some 12) False False False False ?rnd = noTypeMessage"
    by blast+
  moreover have "generatePassword (Some 12) True False True True ?rnd = js ''AW)G2]M8,S^B''"
    by code_simp
  ultimately show ?thesis using r by simp
qed

section \<open>Colour converter: \<open>hexToRgb\<close>\<close>

text \<open>
  \<open>hexToRgb(hex)\<close> runs \<open>/^#?([a-f\d]{2})([a-f\d]{2})([a-f\d]{2})$/i.exec(hex)\<close> and,
  on a match, parses the three groups with \<open>parseInt(_, 16)\<close>.  \<open>{2}\<close> is written as
  the class twice.  \<open>parseInt\<close> with radix 16 skips leading white space, reads a sign
  and an optional \<open>0x\<close>, and takes the longest prefix of hexadecimal digits; with no
  digit the result is \<open>NaN\<close>, here \<open>None\<close>.
\<close>

definition hexDigitValue :: "jschar \<Rightarrow> nat option" where
  "hexDigitValue c =
     (if 0x30 \<le> c \<and> c \<le> 0x39 then Some (unat c - 0x30)
      else if 0x61 \<le> c \<and> c \<le> 0x66 then Some (unat c - 0x61 + 10)
      else if 0x41 \<le> c \<and> c \<le> 0x46 then Some (unat c - 0x41 + 10)
      else None)"

definition isHexDigit :: "jschar \<Rightarrow> bool" where
  "isHexDigit c \<longleftrightarrow> hexDigitValue c \<noteq> None"

definition hexClass :: "(jschar \<times> jschar) list" where
  "hexClass = [(0x61, 0x66), (0x30, 0x39)]"

definition hexItems :: "item list" where
  "hexItems =
     [Bol, OptChr 0x23,
      Open 1, Cls hexClass, Cls hexClass, Close 1,
      Open 2, Cls hexClass, Cls hexClass, Close 2,
      Open 3, Cls hexClass, Cls hexClass, Close 3,
      Eol]"

definition hexRegex :: regexp where
  "hexRegex = \<lparr>items = hexItems, global = False, ignoreCase = True, lastIndex = 0\<rparr>"

definition hexValue :: "jsstring \<Rightarrow> nat" where
  "hexValue ds = foldl (\<lambda>acc d. 16 * acc + (case hexDigitValue d of Some v \<Rightarrow> v | None \<Rightarrow> 0)) 0 ds"

definition parseInt16 :: "jsstring \<Rightarrow> int option" where
  "parseInt16 s =
     (let s1 = dropWhile isWhiteSpace s;
          neg = (case s1 of c # _ \<Rightarrow> c = 0x2D | [] \<Rightarrow> False);
          s2 = (case s1 of c # t \<Rightarrow> if c = 0x2D \<or> c = 0x2B then t else s1 | [] \<Rightarrow> s1);
          s3 = (case s2 of z # x # t \<Rightarrow> if z = 0x30 \<and> (x = 0x78 \<or> x = 0x58) then t else s2
                | _ \<Rightarrow> s2);
          ds = takeWhile isHexDigit s3
      in if ds = [] then None
         else Some (if neg then - int (hexValue ds) else int (hexValue ds)))"

record rgb =
  r :: "int option"
  g :: "int option"
  b :: "int option"

definition groupInt16 :: "execResult \<Rightarrow> nat \<Rightarrow> int option" where
  "groupInt16 res k = (case map_of (groups res) k of None \<Rightarrow> None | Some t \<Rightarrow> parseInt16 t)"

definition hexToRgb :: "(jschar \<Rightarrow> jschar) \<Rightarrow> jsstring \<Rightarrow> rgb option" where
  "hexToRgb up hex =
     (case fst (regexExec up hexRegex hex) of
        None \<Rightarrow> None
      | Some res \<Rightarrow> Some \<lparr>r = groupInt16 res 1, g = groupInt16 res 2, b = groupInt16 res 3\<rparr>)"

definition sixHexDigits :: "jsstring \<Rightarrow> bool" where
  "sixHexDigits t \<longleftrightarrow> length t = 6 \<and> list_all isHexDigit t"

definition wellFormedHex :: "jsstring \<Rightarrow> bool" where
  "wellFormedHex s \<longleftrightarrow>
     sixHexDigits s \<or> (case s of [] \<Rightarrow> False | c # t \<Rightarrow> c = 0x23 \<and> sixHexDigits t)"

definition hexBody :: "jsstring \<Rightarrow> jsstring" where
  "hexBody s = (case s of [] \<Rightarrow> [] | c # t \<Rightarrow> if c = 0x23 then t else s)"

definition hexTail :: "item list" where
  "hexTail =
     [Open 1, Cls hexClass, Cls hexClass, Close 1,
      Open 2, Cls hexClass, Cls hexClass, Close 2,
      Open 3, Cls hexClass, Cls hexClass, Close 3,
      Eol]"

lemma classMembers_hexClass:
  "classMembers hexClass = [0x61, 0x62, 0x63, 0x64, 0x65, 0x66, 0x30, 0x31, 0x32, 0x33, 0x34, 0x35, 0x36, 0x37, 0x38, 0x39]"
  by (simp add: classMembers_def hexClass_def upt_rec)

lemma asciiUpper_lt: "c < 128 \<Longrightarrow> asciiUpper c < 128"
  by (auto simp: asciiUpper_def word_less_nat_alt word_le_nat_alt unat_sub_if')

lemma canon_lt_iff: "canonicalize up True c < 128 \<longleftrightarrow> c < 128"
  by (auto simp: canonicalize_def Let_def asciiUpper_lt)

lemma clsMatches_hexClass: "clsMatches up True hexClass c \<longleftrightarrow> isHexDigit c"
proof (cases "c < 128")
  case True
  then show ?thesis
    unfolding clsMatches_def classMembers_hexClass canonicalize_def asciiUpper_def isHexDigit_def hexDigitValue_def
    by (simp add: word_less_nat_alt word_le_nat_alt unat_sub_if' word_unat_eq_iff split: if_splits) arith
next
  case False
  then have "\<not> canonicalize up True c < 128" by (simp add: canon_lt_iff)
  then have "\<not> clsMatches up True hexClass c"
    unfolding clsMatches_def classMembers_hexClass
    by (auto simp: canonicalize_def asciiUpper_def)
  moreover from False have "\<not> isHexDigit c"
    unfolding isHexDigit_def hexDigitValue_def
    by (simp add: word_less_nat_alt word_le_nat_alt)
  ultimately show ?thesis by simp
qed

lemma matchItems_group2:
  "matchItems up ic (Open k # Cls r1 # Cls r2 # Close k # its) rest p st cs =
     (case rest of
        x # y # rest' \<Rightarrow>
          if clsMatches up ic r1 x \<and> clsMatches up ic r2 y
          then matchItems up ic its rest' (Suc (Suc p)) ((k, p) # st) ((k, (p, Suc (Suc p))) # cs)
          else None
      | _ \<Rightarrow> None)"
  by (simp split: list.splits)

lemma sixHexDigits_iff:
  "sixHexDigits t \<longleftrightarrow>
     (\<exists>x1 x2 x3 x4 x5 x6. t = [x1, x2, x3, x4, x5, x6] \<and> isHexDigit x1 \<and> isHexDigit x2
        \<and> isHexDigit x3 \<and> isHexDigit x4 \<and> isHexDigit x5 \<and> isHexDigit x6)"
  by (auto simp: sixHexDigits_def length_Suc_conv eval_nat_numeral)

lemma matchItems_hexTail:
  "matchItems up True hexTail rest p st cs =
     (if sixHexDigits rest
      then Some (p + 6, [(3, (p + 4, p + 6)), (2, (p + 2, p + 4)), (1, (p, p + 2))] @ cs)
      else None)"
  unfolding hexTail_def matchItems_group2 sixHexDigits_iff
  by (auto simp: clsMatches_hexClass split: list.splits)

lemma canon_hash: "canonicalize up True x = canonicalize up True 0x23 \<longleftrightarrow> x = 0x23"
proof (cases "x < 128")
  case True
  then show ?thesis
    unfolding canonicalize_def asciiUpper_def
    by (simp add: word_less_nat_alt word_le_nat_alt unat_sub_if' word_unat_eq_iff split: if_splits) arith
next
  case False
  then have "\<not> canonicalize up True x < 128" by (simp add: canon_lt_iff)
  moreover have "canonicalize up True 0x23 = 0x23" by (simp add: canonicalize_def asciiUpper_def)
  ultimately show ?thesis using False by auto
qed

lemma hash_not_hex: "\<not> isHexDigit 0x23"
  by (simp add: isHexDigit_def hexDigitValue_def)

lemma matchItems_hexItems_0:
  "matchItems up True hexItems s 0 [] [] =
     (if wellFormedHex s
      then (let p = length s - 6 in
            Some (length s, [(3, (p + 4, p + 6)), (2, (p + 2, p + 4)), (1, (p, p + 2))]))
      else None)"
proof -
  have items: "hexItems = Bol # OptChr 0x23 # hexTail" by (simp add: hexItems_def hexTail_def)
  show ?thesis
  proof (cases s)
    case Nil
    then show ?thesis by (simp add: items matchItems_hexTail wellFormedHex_def sixHexDigits_def)
  next
    case (Cons x xs)
    show ?thesis
    proof (cases "x = 0x23")
      case True
      then have "\<not> sixHexDigits s" using Cons hash_not_hex by (auto simp: sixHexDigits_def)
      then show ?thesis using Cons True
        by (auto simp: items matchItems_hexTail canon_hash wellFormedHex_def sixHexDigits_def Let_def)
    next
      case False
      then show ?thesis using Cons
        by (auto simp: items matchItems_hexTail canon_hash wellFormedHex_def sixHexDigits_def Let_def)
    qed
  qed
qed

lemma matchItems_hexItems_pos: "0 < p \<Longrightarrow> matchItems up True hexItems rest p st cs = None"
  by (simp add: hexItems_def)

lemma scanFrom_hexItems_pos: "0 < i \<Longrightarrow> scanFrom up True hexItems s i = None"
proof (induction "Suc (length s) - i" arbitrary: i)
  case 0
  then show ?case by (subst scanFrom.simps) simp
next
  case (Suc n)
  from Suc.prems have m: "matchItems up True hexItems (drop i s) i [] [] = None"
    by (rule matchItems_hexItems_pos)
  show ?case
  proof (cases "length s < i")
    case True
    then show ?thesis by (subst scanFrom.simps) simp
  next
    case False
    with Suc.hyps(2) have "n = Suc (length s) - Suc i" by simp
    then have "scanFrom up True hexItems s (Suc i) = None" using Suc.hyps(1) by simp
    with m False show ?thesis by (subst scanFrom.simps) simp
  qed
qed

lemma scanFrom_hexItems_0:
  "scanFrom up True hexItems s 0 =
     (if wellFormedHex s
      then (let p = length s - 6 in
            Some (0, length s, [(3, (p + 4, p + 6)), (2, (p + 2, p + 4)), (1, (p, p + 2))]))
      else None)"
  by (subst scanFrom.simps) (simp add: matchItems_hexItems_0 scanFrom_hexItems_pos Let_def)

lemma hexDigit_not_space: "isHexDigit c \<Longrightarrow> \<not> isWhiteSpace c"
  unfolding isHexDigit_def hexDigitValue_def isWhiteSpace_def
  by (simp add: word_less_nat_alt word_le_nat_alt word_unat_eq_iff split: if_splits)

lemma parseInt16_pair:
  assumes "isHexDigit x" and "isHexDigit y"
  shows "parseInt16 [x, y] = Some (int (hexValue [x, y]))"
proof -
  have 1: "\<not> isWhiteSpace x" using assms(1) by (rule hexDigit_not_space)
  have 2: "x \<noteq> 0x2D" "x \<noteq> 0x2B" "y \<noteq> 0x78" "y \<noteq> 0x58"
    using assms by (auto simp: isHexDigit_def hexDigitValue_def)
  show ?thesis using 1 2 assms by (simp add: parseInt16_def)
qed

lemma hexValue_pair_bound:
  assumes "isHexDigit x" and "isHexDigit y"
  shows "hexValue [x, y] < 256"
proof -
  have "\<And>c. isHexDigit c \<Longrightarrow> (case hexDigitValue c of Some v \<Rightarrow> v | None \<Rightarrow> 0) < 16"
    unfolding isHexDigit_def hexDigitValue_def
    by (simp add: word_less_nat_alt word_le_nat_alt split: if_splits)
  from this [OF assms(1)] this [OF assms(2)] show ?thesis by (simp add: hexValue_def)
qed

text \<open>
  Claim C7.  For every string \<open>s\<close>: when \<open>s\<close> is six hexadecimal digits, optionally
  preceded by \<open>#\<close>, \<open>hexToRgb\<close> returns the record whose components are the first,
  second and third pair of digits read in base 16; for every other string it returns
  \<open>null\<close>.  This holds whatever the upper-case table of the host is above ASCII.
\<close>

theorem hexToRgb_spec:
  "hexToRgb up s =
     (if wellFormedHex s
      then Some \<lparr>r = Some (int (hexValue (take 2 (hexBody s)))),
                 g = Some (int (hexValue (take 2 (drop 2 (hexBody s))))),
                 b = Some (int (hexValue (drop 4 (hexBody s))))\<rparr>
      else None)"
proof (cases "wellFormedHex s")
  case False
  then show ?thesis
    by (simp add: hexToRgb_def regexExec_def hexRegex_def scanFrom_hexItems_0)
next
  case True
  then have "sixHexDigits (hexBody s)" and len: "length s = length (hexBody s) + (length s - 6)"
    using hash_not_hex
    by (auto simp: wellFormedHex_def hexBody_def sixHexDigits_def split: list.splits)
  then obtain x1 x2 x3 x4 x5 x6 where
    body: "hexBody s = [x1, x2, x3, x4, x5, x6]" and
    hex: "isHexDigit x1" "isHexDigit x2" "isHexDigit x3" "isHexDigit x4" "isHexDigit x5" "isHexDigit x6"
    unfolding sixHexDigits_iff by blast
  have drop: "drop (length s - 6) s = hexBody s"
    using True hash_not_hex
    by (auto simp: wellFormedHex_def hexBody_def sixHexDigits_def split: list.splits)
  have sub: "substring s (length s - 6) (length s - 6 + 2) = [x1, x2]"
      "substring s (length s - 6 + 2) (length s - 6 + 4) = [x3, x4]"
      "substring s (length s - 6 + 4) (length s - 6 + 6) = [x5, x6]"
  proof -
    let ?n = "length s - 6"
    have d2: "drop (?n + 2) s = drop 2 (drop ?n s)" and d4: "drop (?n + 4) s = drop 4 (drop ?n s)"
      by (simp_all add: add.commute)
    show "substring s ?n (?n + 2) = [x1, x2]"
      using drop body by (simp add: substring_def)
    show "substring s (?n + 2) (?n + 4) = [x3, x4]"
      unfolding substring_def d2 using drop body by simp
    show "substring s (?n + 4) (?n + 6) = [x5, x6]"
      unfolding substring_def d4 using drop body by simp
  qed
  show ?thesis
    using True sub
    by (simp add: hexToRgb_def regexExec_def hexRegex_def scanFrom_hexItems_0 Let_def
        groupInt16_def body parseInt16_pair hex)
qed

text \<open>The example of the documentation comment: \<open>hexToRgb('#ff0000')\<close>.\<close>

lemma hexToRgb_example:
  "hexToRgb (\<lambda>c. c) (js ''#ff0000'') = Some \<lparr>r = Some 255, g = Some 0, b = Some 0\<rparr>"
  by code_simp

end
